theory Spec2Isabelle
  imports Main "HOL-Library.Word"
begin

unbundle bit_operations_syntax

section \<open>Values shared by the whole program\<close>

text \<open>
  The program (\<open>go.go\<close>) reads saved games out of a zip archive, patches one of them in
  place and writes the archive out again. Bytes are \<open>8 word\<close>, Go's \<open>int32\<close> is
  \<open>32 word\<close> read through \<open>sint\<close>, and \<open>int64\<close> is \<open>64 word\<close>.
\<close>

type_synonym byte = "8 word"
type_synonym int32 = "32 word"
type_synonym int64 = "64 word"

text \<open>
  Errors are values. \<open>LibError\<close> stands for any error value handed back by the standard
  library (the number only tells two of them apart), \<open>ErrUnexpectedEOF\<close> is what
  \<open>binary.Read\<close> reports on a short reader, \<open>ErrAlgorithm\<close> is
  \<open>zip.ErrAlgorithm\<close>, \<open>ErrWriteToDirectory\<close> is the error of a write of data to a
  directory entry, and \<open>ParseError\<close> is the error that \<open>getSavedDate\<close>
  builds with \<open>fmt.Errorf\<close> around the four bytes and the cause.
\<close>

datatype error =
    LibError nat
  | ErrUnexpectedEOF
  | ErrAlgorithm
  | ErrWriteToDirectory
  | ParseError "byte list" error

text \<open>
  A call of one of the program's functions ends in one of three ways: it returns its
  values with a nil error, it returns a non-nil error, or it panics at run time (an index
  or a slice bound out of range), which ends the process.
\<close>

datatype 'a outcome = Returned 'a | Failed error | Panic

subsection \<open>Byte slices\<close>

text \<open>
  A Go slice is a window on a backing array: \<open>elems\<close> are the \<open>len\<close> visible bytes and
  \<open>spare\<close> is the rest of the backing array, up to the capacity. An index expression
  \<open>body[i]\<close> is checked against the length; a slice expression \<open>body[lo:hi]\<close> on a
  slice is checked against the capacity. The nil slice has neither.
\<close>

record slice =
  elems :: "byte list"
  spare :: "byte list"

definition len :: "slice \<Rightarrow> nat" where
  "len s = length (elems s)"

definition cap :: "slice \<Rightarrow> nat" where
  "cap s = length (elems s) + length (spare s)"

definition nil :: slice where
  "nil = \<lparr>elems = [], spare = []\<rparr>"

definition backing :: "slice \<Rightarrow> byte list" where
  "backing s = elems s @ spare s"

text \<open>\<open>body[i] = v\<close>: a panic when \<open>i\<close> is not below the length.\<close>

definition assign :: "byte list \<Rightarrow> nat \<Rightarrow> byte \<Rightarrow> byte list outcome" where
  "assign body i v = (if i < length body then Returned (body[i := v]) else Panic)"

subsection \<open>encoding/binary, little endian\<close>

text \<open>
  \<open>binary.LittleEndian.Uint32\<close> followed by the conversion to \<open>int32\<close>, and
  \<open>PutUint32\<close> of an \<open>int32\<close>.
\<close>

definition leUint32 :: "byte \<Rightarrow> byte \<Rightarrow> byte \<Rightarrow> byte \<Rightarrow> int32" where
  "leUint32 b0 b1 b2 b3 =
     ucast b0 OR push_bit 8 (ucast b1) OR push_bit 16 (ucast b2) OR push_bit 24 (ucast b3)"

definition putUint32 :: "int32 \<Rightarrow> byte list" where
  "putUint32 v = [ucast v, ucast (drop_bit 8 v), ucast (drop_bit 16 v), ucast (drop_bit 24 v)]"

text \<open>
  \<open>binary.Read(buf, binary.LittleEndian, &t)\<close> for \<open>t\<close> an \<open>int32\<close>: it needs four
  bytes from the reader and fails on fewer.
\<close>

definition binaryRead :: "byte list \<Rightarrow> error + int32" where
  "binaryRead b =
     (if length b < 4 then Inl ErrUnexpectedEOF
      else Inr (leUint32 (b ! 0) (b ! 1) (b ! 2) (b ! 3)))"

section \<open>getSavedDate\<close>

text \<open>
  \<open>b := body[60:64]\<close> panics when the capacity of \<open>body\<close> is below 64; otherwise
  \<open>b\<close> is the four bytes 60 to 63 of the backing array, whatever the length of
  \<open>body\<close>. The error return wraps a failure of \<open>binary.Read\<close>.
\<close>

definition getSavedDate :: "slice \<Rightarrow> int32 outcome" where
  "getSavedDate body =
     (if cap body < 64 then Panic
      else
        (let b = take 4 (drop 60 (backing body)) in
         case binaryRead b of
           Inl err \<Rightarrow> Failed (ParseError b err)
         | Inr t \<Rightarrow> Returned t))"

section \<open>flipBoard180\<close>

text \<open>
  The loop \<open>for i := 76; i < len(body); i += 20\<close>. Each of the two assignments indexes
  \<open>body\<close> and panics when the index is not below the length; the first assignment has
  taken effect when the second one is evaluated. Only index expressions occur, so the
  function is modelled on the visible bytes.
\<close>

function flipLoop :: "byte \<Rightarrow> nat \<Rightarrow> byte list \<Rightarrow> byte list outcome" where
  "flipLoop bs i body =
     (if i < length body then
        (if i + 4 < length body then
           (let body1 = body[i + 4 := bs - body ! (i + 4) + 1] in
            if i + 8 < length body1 then
              flipLoop bs (i + 20) (body1[i + 8 := bs - body1 ! (i + 8) + 1])
            else Panic)
         else Panic)
      else Returned body)"
  by pat_completeness auto
termination
  by (relation "measure (\<lambda>(bs, i, body). length body - i)") auto

declare flipLoop.simps [simp del]

definition flipBoard180 :: "byte list \<Rightarrow> byte list outcome" where
  "flipBoard180 body =
     (if 8 < length body then flipLoop (body ! 8) 76 body else Panic)"

section \<open>flipToComputer\<close>

text \<open>
  \<open>bytes.NewBuffer(body[56:56])\<close> makes a buffer whose storage is the backing array of
  \<open>body\<close> from offset 56 on. A \<open>Write\<close> of four bytes lands in that array while the
  capacity has room for it; once it has not, the buffer moves to storage of its own and
  \<open>body\<close> is no longer touched. \<open>shared\<close> is the backing array of \<open>body\<close>,
  \<open>pos\<close> the offset of the next write in it, or \<open>None\<close> after the buffer has moved.
\<close>

record Buffer =
  shared :: "byte list"
  pos :: "nat option"

definition overwrite :: "byte list \<Rightarrow> nat \<Rightarrow> byte list \<Rightarrow> byte list" where
  "overwrite arr p bs = take p arr @ bs @ drop (p + length bs) arr"

definition bufferWrite :: "Buffer \<Rightarrow> byte list \<Rightarrow> Buffer" where
  "bufferWrite buf p =
     (case pos buf of
        None \<Rightarrow> buf
      | Some m \<Rightarrow>
          if m + length p \<le> length (shared buf)
          then \<lparr>shared = overwrite (shared buf) m p, pos = Some (m + length p)\<rparr>
          else buf\<lparr>pos := None\<rparr>)"

text \<open>\<open>binary.Write(buf, binary.LittleEndian, now)\<close>; its error result is dropped.\<close>

definition binaryWrite :: "Buffer \<Rightarrow> int32 \<Rightarrow> Buffer" where
  "binaryWrite buf v = bufferWrite buf (putUint32 v)"

text \<open>
  The last four lines of \<open>flipToComputer\<close>: the slice expression \<open>body[56:56]\<close>
  panics when the capacity is below 56, then the two writes. \<open>unixNow\<close> is
  \<open>time.Now().Unix()\<close>, cut to 32 bits by the conversion.
\<close>

definition updateDates :: "int64 \<Rightarrow> slice \<Rightarrow> slice outcome" where
  "updateDates unixNow body =
     (if cap body < 56 then Panic
      else
        (let buf = \<lparr>shared = backing body, pos = Some 56\<rparr>;
             now = (ucast unixNow :: int32);
             buf1 = binaryWrite buf now;
             buf2 = binaryWrite buf1 now
         in Returned \<lparr>elems = take (len body) (shared buf2),
                      spare = drop (len body) (shared buf2)\<rparr>))"

text \<open>
  \<open>player\<close> is the value of the flag \<open>-p\<close>. The byte edits run on the visible bytes
  in the order of the source and the first panic ends the call.
\<close>

definition flipToComputer :: "string \<Rightarrow> int64 \<Rightarrow> slice \<Rightarrow> slice outcome" where
  "flipToComputer player unixNow body =
     (case assign (elems body) 4 1 of
        Returned b1 \<Rightarrow>
          (case (if player = ''w''
                 then (case assign b1 12 1 of
                         Returned b2 \<Rightarrow> flipBoard180 b2
                       | Failed e \<Rightarrow> Failed e
                       | Panic \<Rightarrow> Panic)
                 else assign b1 12 0) of
             Returned b3 \<Rightarrow>
               (case assign b3 16 0x0a of
                  Returned b4 \<Rightarrow> updateDates unixNow (body\<lparr>elems := b4\<rparr>)
                | Failed e \<Rightarrow> Failed e
                | Panic \<Rightarrow> Panic)
           | Failed e \<Rightarrow> Failed e
           | Panic \<Rightarrow> Panic)
      | Failed e \<Rightarrow> Failed e
      | Panic \<Rightarrow> Panic)"

section \<open>The archive that is read\<close>

text \<open>
  The file system is outside the program: what \<open>zip.OpenReader\<close> returns for the
  file name is a parameter of the functions that call it, an error or the entries of the
  archive in order. An entry has a name, a mode (of which only \<open>IsDir\<close> is asked) and
  \<open>Open\<close>, which gives an error or a reader. A reader yields the decoded payload
  \<open>content\<close>, unless it ends with the error \<open>fault\<close> (a checksum mismatch, a
  truncated file). \<open>slack\<close> is what the buffer allocated by \<open>ioutil.ReadAll\<close> holds
  beyond the payload: the result of \<open>ReadAll\<close> is a slice of that buffer, so its
  capacity may exceed its length.
\<close>

record Reader =
  content :: "byte list"
  fault :: "error option"
  slack :: "byte list"

record File =
  Name :: string
  IsDir :: bool
  Open :: "error + Reader"

definition ReadAll :: "Reader \<Rightarrow> error + slice" where
  "ReadAll rc =
     (case fault rc of
        Some err \<Rightarrow> Inl err
      | None \<Rightarrow> Inr \<lparr>elems = content rc, spare = slack rc\<rparr>)"

text \<open>\<open>filepath.HasPrefix\<close>, which on Unix is \<open>strings.HasPrefix\<close>.\<close>

definition HasPrefix :: "string \<Rightarrow> string \<Rightarrow> bool" where
  "HasPrefix p prefix = (take (length prefix) p = prefix)"

section \<open>readAvx\<close>

text \<open>The closure that opens an entry and reads all of it.\<close>

definition readBody :: "File \<Rightarrow> error + slice" where
  "readBody f =
     (case Open f of
        Inl err \<Rightarrow> Inl err
      | Inr rc \<Rightarrow> ReadAll rc)"

text \<open>
  The body of the loop over \<open>r.File\<close>, with the three variables \<open>latest\<close>,
  \<open>latestBody\<close> and \<open>latestDate\<close> as the state. The comparison
  \<open>savedDate > latestDate\<close> is the signed one of \<open>int32\<close>.
\<close>

type_synonym scanState = "string \<times> slice \<times> int32"

fun scanLoop :: "string \<Rightarrow> File list \<Rightarrow> scanState \<Rightarrow> scanState outcome" where
  "scanLoop prefix [] st = Returned st"
| "scanLoop prefix (f # fs) (latest, latestBody, latestDate) =
     (if \<not> HasPrefix (Name f) prefix then scanLoop prefix fs (latest, latestBody, latestDate)
      else if IsDir f then scanLoop prefix fs (latest, latestBody, latestDate)
      else
        (case readBody f of
           Inl err \<Rightarrow> Failed err
         | Inr body \<Rightarrow>
             (case getSavedDate body of
                Panic \<Rightarrow> Panic
              | Failed err \<Rightarrow> Failed err
              | Returned savedDate \<Rightarrow>
                  if sint latestDate < sint savedDate
                  then scanLoop prefix fs (Name f, body, savedDate)
                  else scanLoop prefix fs (latest, latestBody, latestDate))))"

definition gamePrefix :: "bool \<Rightarrow> string" where
  "gamePrefix online =
     (if online then ''Container/Documents/game-online/'' else ''Container/Documents/game/'')"

text \<open>\<open>opened\<close> is what \<open>zip.OpenReader(f)\<close> returned.\<close>

definition readAvx :: "error + File list \<Rightarrow> bool \<Rightarrow> (string \<times> slice) outcome" where
  "readAvx opened online =
     (case opened of
        Inl err \<Rightarrow> Failed err
      | Inr files \<Rightarrow>
          (case scanLoop (gamePrefix online) files ([], nil, - 1) of
             Returned (latest, latestBody, latestDate) \<Rightarrow> Returned (latest, latestBody)
           | Failed err \<Rightarrow> Failed err
           | Panic \<Rightarrow> Panic))"

text \<open>
  Two notions to state results about the loop: the entries that pass its two
  \<open>continue\<close> tests, and the entries that read as a body with a saved date.
\<close>

definition selected :: "string \<Rightarrow> File \<Rightarrow> bool" where
  "selected prefix f = (HasPrefix (Name f) prefix \<and> \<not> IsDir f)"

definition readsAs :: "File \<Rightarrow> slice \<Rightarrow> int32 \<Rightarrow> bool" where
  "readsAs f body d = (readBody f = Inr body \<and> getSavedDate body = Returned d)"

section \<open>The archive that is written\<close>

text \<open>
  What \<open>archive/zip\<close> does for \<open>writeAvx\<close>, as far as the program can tell. A
  \<open>zip.Writer\<close> has the compressors registered on it, the entries written so far and
  the sink it writes to. Of the sink only its first failure matters, since every error
  ends \<open>writeAvx\<close>: \<open>failAt\<close> is \<open>None\<close> for a sink that takes everything, or the
  number of the operation that fails and its error; \<open>ops\<close> counts the operations
  made. An entry of the output has its name, the compression tag written in its header,
  the compressor that encodes its payload (none for a directory), and the payload.
  \<open>FlateWriter l\<close> is \<open>flate.NewWriter(out, l)\<close> and \<open>NopWriter\<close> writes the bytes
  as they are.
\<close>

type_synonym zipMethod = "16 word"

definition Store :: zipMethod where
  "Store = 0"

definition Deflate :: zipMethod where
  "Deflate = 8"

definition NoCompression :: int where
  "NoCompression = 0"

datatype Compressor = FlateWriter int | NopWriter

record OutFile =
  oname :: string
  omethod :: zipMethod
  oencoder :: "Compressor option"
  opayload :: "byte list"

type_synonym sink = "(nat \<times> error) option"

record Writer =
  compressors :: "zipMethod \<rightharpoonup> Compressor"
  dir :: "OutFile list"
  failAt :: sink
  ops :: nat

definition NewWriter :: "sink \<Rightarrow> Writer" where
  "NewWriter w = \<lparr>compressors = Map.empty, dir = [], failAt = w, ops = 0\<rparr>"

definition RegisterCompressor :: "Writer \<Rightarrow> zipMethod \<Rightarrow> Compressor \<Rightarrow> Writer" where
  "RegisterCompressor zw m c = zw\<lparr>compressors := (compressors zw)(m \<mapsto> c)\<rparr>"

text \<open>One operation on the sink: its error, or the writer with the count moved on.\<close>

definition sinkOp :: "Writer \<Rightarrow> error + Writer" where
  "sinkOp zw =
     (case failAt zw of
        None \<Rightarrow> Inr (zw\<lparr>ops := ops zw + 1\<rparr>)
      | Some (k, err) \<Rightarrow> if k = ops zw then Inl err else Inr (zw\<lparr>ops := ops zw + 1\<rparr>))"

text \<open>
  The compressors of the package: \<open>Store\<close> writes through and \<open>Deflate\<close> is
  \<open>flate.NewWriter(w, 5)\<close>. One registered on the writer comes first.
\<close>

definition packageCompressor :: "zipMethod \<Rightarrow> Compressor option" where
  "packageCompressor m =
     (if m = Store then Some NopWriter
      else if m = Deflate then Some (FlateWriter 5)
      else None)"

definition compressor :: "Writer \<Rightarrow> zipMethod \<Rightarrow> Compressor option" where
  "compressor zw m =
     (case compressors zw m of
        Some c \<Rightarrow> Some c
      | None \<Rightarrow> packageCompressor m)"

text \<open>\<open>strings.HasSuffix\<close>.\<close>

definition HasSuffix :: "string \<Rightarrow> string \<Rightarrow> bool" where
  "HasSuffix s suffix =
     (length suffix \<le> length s \<and> drop (length s - length suffix) s = suffix)"

text \<open>
  \<open>zw.Create(name)\<close> asks for the tag \<open>Deflate\<close>. For a name that ends in a slash
  \<open>CreateHeader\<close> changes the tag to \<open>Store\<close>, takes no compressor and returns a
  directory writer; for any other name it takes the compressor the writer has for the tag
  and returns a file writer. Then the header goes to the sink.
\<close>

datatype EntryWriter = DirWriter | FileWriter

definition Create :: "Writer \<Rightarrow> string \<Rightarrow> error + (Writer \<times> EntryWriter)" where
  "Create zw name =
     (if HasSuffix name ''/'' then
        (case sinkOp zw of
           Inl err \<Rightarrow> Inl err
         | Inr zw1 \<Rightarrow>
             Inr (zw1\<lparr>dir := dir zw1 @
                    [\<lparr>oname = name, omethod = Store, oencoder = None, opayload = []\<rparr>]\<rparr>,
                  DirWriter))
      else
        (case compressor zw Deflate of
           None \<Rightarrow> Inl ErrAlgorithm
         | Some c \<Rightarrow>
             (case sinkOp zw of
                Inl err \<Rightarrow> Inl err
              | Inr zw1 \<Rightarrow>
                  Inr (zw1\<lparr>dir := dir zw1 @
                         [\<lparr>oname = name, omethod = Deflate, oencoder = Some c,
                           opayload = []\<rparr>]\<rparr>,
                       FileWriter))))"

text \<open>
  \<open>of.Write(p)\<close> on the writer that \<open>Create\<close> returned. A directory writer takes
  the empty slice and refuses anything else; a file writer adds the bytes to its entry,
  which is the last one.
\<close>

definition appendLast :: "OutFile list \<Rightarrow> byte list \<Rightarrow> OutFile list" where
  "appendLast d p =
     (case rev d of
        [] \<Rightarrow> []
      | e # es \<Rightarrow> rev es @ [e\<lparr>opayload := opayload e @ p\<rparr>])"

definition Write :: "Writer \<Rightarrow> EntryWriter \<Rightarrow> byte list \<Rightarrow> error + Writer" where
  "Write zw ow p =
     (case ow of
        DirWriter \<Rightarrow> if p = [] then Inr zw else Inl ErrWriteToDirectory
      | FileWriter \<Rightarrow>
          (case sinkOp zw of
             Inl err \<Rightarrow> Inl err
           | Inr zw1 \<Rightarrow> Inr (zw1\<lparr>dir := appendLast (dir zw1) p\<rparr>)))"

text \<open>
  \<open>io.Copy(of, rc)\<close> writes what the reader yields, if it yields anything, and
  returns the error of the write, or else the error the reader ended with.
\<close>

definition Copy :: "Writer \<Rightarrow> EntryWriter \<Rightarrow> Reader \<Rightarrow> error + Writer" where
  "Copy zw ow rc =
     (case (if content rc = [] then Inr zw else Write zw ow (content rc)) of
        Inl err \<Rightarrow> Inl err
      | Inr zw1 \<Rightarrow>
          (case fault rc of
             Some err \<Rightarrow> Inl err
           | None \<Rightarrow> Inr zw1))"

text \<open>\<open>zw.Close()\<close> writes the central directory; the archive is then complete.\<close>

definition Close :: "Writer \<Rightarrow> error + OutFile list" where
  "Close zw =
     (case sinkOp zw of
        Inl err \<Rightarrow> Inl err
      | Inr zw1 \<Rightarrow> Inr (dir zw1))"

section \<open>writeAvx\<close>

text \<open>The closure called for each entry of \<open>r.File\<close>, and the loop around it.\<close>

definition writeEntry :: "slice \<Rightarrow> string \<Rightarrow> File \<Rightarrow> Writer \<Rightarrow> error + Writer" where
  "writeEntry latestBody firstOnline f zw =
     (case Open f of
        Inl err \<Rightarrow> Inl err
      | Inr rc \<Rightarrow>
          (case Create zw (Name f) of
             Inl err \<Rightarrow> Inl err
           | Inr (zw1, ow) \<Rightarrow>
               if Name f = firstOnline then Write zw1 ow (elems latestBody)
               else Copy zw1 ow rc))"

fun writeLoop :: "slice \<Rightarrow> string \<Rightarrow> File list \<Rightarrow> Writer \<Rightarrow> error + Writer" where
  "writeLoop latestBody firstOnline [] zw = Inr zw"
| "writeLoop latestBody firstOnline (f # fs) zw =
     (case writeEntry latestBody firstOnline f zw of
        Inl err \<Rightarrow> Inl err
      | Inr zw1 \<Rightarrow> writeLoop latestBody firstOnline fs zw1)"

text \<open>
  \<open>w\<close> is the sink and \<open>opened\<close> is what \<open>zip.OpenReader(avxName)\<close> returned. The
  result is the archive written to \<open>w\<close> when \<open>writeAvx\<close> returns nil, and the error
  otherwise; what reached \<open>w\<close> before an error is not kept.
\<close>

definition writeAvx ::
  "sink \<Rightarrow> error + File list \<Rightarrow> slice \<Rightarrow> string \<Rightarrow> OutFile list outcome" where
  "writeAvx w opened latestBody firstOnline =
     (let zw = RegisterCompressor (NewWriter w) Deflate (FlateWriter NoCompression) in
      case opened of
        Inl err \<Rightarrow> Failed err
      | Inr files \<Rightarrow>
          (case writeLoop latestBody firstOnline files zw of
             Inl err \<Rightarrow> Failed err
           | Inr zw1 \<Rightarrow>
               (case Close zw1 of
                  Inl err \<Rightarrow> Failed err
                | Inr out \<Rightarrow> Returned out)))"

text \<open>
  Five notions to state results about the loop. \<open>written\<close> is the payload the loop is
  to write for an entry. \<open>copies\<close> says that the loop can write the entry: it opens,
  its reader ends without error unless the entry is the one replaced, and there is
  nothing to write if its name ends in a slash. \<open>sinkOps\<close> is the number of operations
  on the sink the entry takes: its header, and its payload when a file writer is handed
  one. \<open>emitted c\<close> is the entry of the output for an entry read, when the writer has
  the compressor \<open>c\<close> for \<open>Deflate\<close>. \<open>sinkTakes\<close> says that the sink takes the
  next \<open>n\<close> operations.
\<close>

definition written :: "slice \<Rightarrow> string \<Rightarrow> File \<Rightarrow> byte list" where
  "written latestBody firstOnline f =
     (if Name f = firstOnline then elems latestBody
      else (case Open f of Inl err \<Rightarrow> [] | Inr rc \<Rightarrow> content rc))"

definition copies :: "slice \<Rightarrow> string \<Rightarrow> File \<Rightarrow> bool" where
  "copies latestBody firstOnline f =
     (case Open f of
        Inl err \<Rightarrow> False
      | Inr rc \<Rightarrow>
          (Name f = firstOnline \<or> fault rc = None) \<and>
          (if HasSuffix (Name f) ''/'' then written latestBody firstOnline f = [] else True))"

definition sinkOps :: "slice \<Rightarrow> string \<Rightarrow> File \<Rightarrow> nat" where
  "sinkOps latestBody firstOnline f =
     (if HasSuffix (Name f) ''/'' then 1
      else if Name f = firstOnline then 2
      else if written latestBody firstOnline f = [] then 1
      else 2)"

definition emitted :: "Compressor \<Rightarrow> slice \<Rightarrow> string \<Rightarrow> File \<Rightarrow> OutFile" where
  "emitted c latestBody firstOnline f =
     \<lparr>oname = Name f,
      omethod = (if HasSuffix (Name f) ''/'' then Store else Deflate),
      oencoder = (if HasSuffix (Name f) ''/'' then None else Some c),
      opayload = written latestBody firstOnline f\<rparr>"

definition sinkTakes :: "Writer \<Rightarrow> nat \<Rightarrow> bool" where
  "sinkTakes zw n =
     (case failAt zw of
        None \<Rightarrow> True
      | Some (k, err) \<Rightarrow> k < ops zw \<or> ops zw + n \<le> k)"

section \<open>Properties of the board flip\<close>

lemma flipLoop_step:
  "i + 8 < length body \<Longrightarrow>
   flipLoop bs i body =
     flipLoop bs (i + 20) (body[i + 4 := bs - body ! (i + 4) + 1, i + 8 := bs - body ! (i + 8) + 1])"
  by (simp add: flipLoop.simps [of bs i body] Let_def)

lemma flipLoop_short:
  "i < length body \<Longrightarrow> \<not> i + 8 < length body \<Longrightarrow> flipLoop bs i body = Panic"
  by (simp add: flipLoop.simps [of bs i body] Let_def)

lemma flipLoop_done:
  "\<not> i < length body \<Longrightarrow> flipLoop bs i body = Returned body"
  by (simp add: flipLoop.simps [of bs i body])

lemma flipLoop_length:
  "flipLoop bs i body = Returned b' \<Longrightarrow> length b' = length body"
proof (induction bs i body rule: flipLoop.induct)
  case (1 bs i body)
  show ?case
  proof (cases "i < length body")
    case False
    with "1.prems" show ?thesis by (simp add: flipLoop.simps)
  next
    case True
    with "1.prems" have a: "i + 4 < length body" "i + 8 < length body"
      by (auto simp: flipLoop.simps [of bs i body] Let_def split: if_splits)
    with True "1.prems" have
      "flipLoop bs (i + 20) (body[i + 4 := bs - body ! (i + 4) + 1, i + 8 := bs - (body[i + 4 := bs - body ! (i + 4) + 1]) ! (i + 8) + 1]) = Returned b'"
      by (simp add: flipLoop.simps [of bs i body] Let_def)
    from "1.IH" [OF True a(1) refl _ this] a show ?thesis by simp
  qed
qed

lemma flipLoop_not_Failed: "flipLoop bs i body \<noteq> Failed e"
proof (induction bs i body rule: flipLoop.induct)
  case (1 bs i body)
  show ?case
    using 1 by (subst flipLoop.simps) (auto simp: Let_def)
qed

lemma flipLoop_returns:
  "(\<exists>b'. flipLoop bs i body = Returned b') \<longleftrightarrow>
     (length body \<le> i \<or> (length body - i) mod 20 = 0 \<or> 9 \<le> (length body - i) mod 20)"
proof (induction bs i body rule: flipLoop.induct)
  case (1 bs i body)
  show ?case
  proof (cases "i < length body")
    case False
    then show ?thesis by (simp add: flipLoop.simps)
  next
    case True
    show ?thesis
    proof (cases "i + 8 < length body")
      case False
      with True have "flipLoop bs i body = Panic"
        by (simp add: flipLoop.simps [of bs i body] Let_def)
      moreover from True False have "(length body - i) mod 20 = length body - i" by simp
      ultimately show ?thesis using True False by simp
    next
      case l8: True
      let ?b2 = "body[i + 4 := bs - body ! (i + 4) + 1, i + 8 := bs - (body[i + 4 := bs - body ! (i + 4) + 1]) ! (i + 8) + 1]"
      have e: "flipLoop bs i body = flipLoop bs (i + 20) ?b2"
        using True l8 by (simp add: flipLoop.simps [of bs i body] Let_def)
      have ih: "(\<exists>b'. flipLoop bs (i + 20) ?b2 = Returned b') \<longleftrightarrow>
         (length ?b2 \<le> i + 20 \<or> (length ?b2 - (i + 20)) mod 20 = 0 \<or> 9 \<le> (length ?b2 - (i + 20)) mod 20)"
        using "1.IH" [OF True _ refl] l8 by simp
      show ?thesis
      proof (cases "length body \<le> i + 20")
        case True
        then have "(length body - i) mod 20 = 0 \<or> 9 \<le> (length body - i) mod 20"
          using l8 by (cases "length body - i = 20") auto
        with e ih True show ?thesis by simp
      next
        case False
        then have "length body - i = (length body - (i + 20)) + 20" by simp
        then have "(length body - i) mod 20 = (length body - (i + 20)) mod 20"
          by (simp only: mod_add_self2)
        with e ih False show ?thesis by simp
      qed
    qed
  qed
qed


lemma flipLoop_nth:
  "flipLoop bs i body = Returned b' \<Longrightarrow> j < length body \<Longrightarrow>
   b' ! j = (if i \<le> j \<and> ((j - i) mod 20 = 4 \<or> (j - i) mod 20 = 8)
             then bs - body ! j + 1 else body ! j)"
proof (induction bs i body rule: flipLoop.induct)
  case (1 bs i body)
  show ?case
  proof (cases "i < length body")
    case False
    with "1.prems" show ?thesis by (simp add: flipLoop_done)
  next
    case True
    have l8: "i + 8 < length body"
      using True "1.prems"(1) flipLoop_short [of i body bs] by (cases "i + 8 < length body") auto
    then have l4: "i + 4 < length body" by simp
    let ?b1 = "body[i + 4 := bs - body ! (i + 4) + 1]"
    let ?b2 = "?b1[i + 8 := bs - ?b1 ! (i + 8) + 1]"
    have l8': "i + 8 < length ?b1" using l8 by simp
    have r: "flipLoop bs (i + 20) ?b2 = Returned b'"
      using "1.prems"(1) True l4 l8 by (simp add: flipLoop.simps [of bs i body] Let_def)
    have jl: "j < length ?b2" using "1.prems"(2) by simp
    have ih: "b' ! j = (if i + 20 \<le> j \<and> ((j - (i + 20)) mod 20 = 4 \<or> (j - (i + 20)) mod 20 = 8)
             then bs - ?b2 ! j + 1 else ?b2 ! j)"
      by (rule "1.IH" [OF True l4 refl l8' r jl])
    have n2: "?b2 ! j = (if j = i + 8 then bs - body ! (i + 8) + 1
                         else if j = i + 4 then bs - body ! (i + 4) + 1 else body ! j)"
      using l8 "1.prems"(2) by (simp add: nth_list_update)
    show ?thesis
    proof (cases "i + 20 \<le> j")
      case True
      then have "j - i = (j - (i + 20)) + 20" by simp
      then have m: "(j - i) mod 20 = (j - (i + 20)) mod 20"
        by (simp only: mod_add_self2)
      from True have "?b2 ! j = body ! j" by (simp add: n2)
      with ih m True show ?thesis by simp
    next
      case False
      then have b: "b' ! j = ?b2 ! j" using ih by simp
      show ?thesis
      proof (cases "i \<le> j")
        case True
        with False have "(j - i) mod 20 = j - i" by simp
        moreover have "j - i = 4 \<longleftrightarrow> j = i + 4" "j - i = 8 \<longleftrightarrow> j = i + 8"
          using True by auto
        ultimately show ?thesis using b True n2 by simp
      next
        case False
        then show ?thesis using b n2 by simp
      qed
    qed
  qed
qed


lemma flipBoard180_returns:
  "(\<exists>b'. flipBoard180 body = Returned b') \<longleftrightarrow>
     8 < length body \<and>
     (length body \<le> 76 \<or> (length body - 76) mod 20 = 0 \<or> 9 \<le> (length body - 76) mod 20)"
  by (simp add: flipBoard180_def flipLoop_returns)

lemma flipBoard180_not_Failed: "flipBoard180 body \<noteq> Failed e"
  by (simp add: flipBoard180_def flipLoop_not_Failed)

lemma flipBoard180_length:
  "flipBoard180 body = Returned b' \<Longrightarrow> length b' = length body"
  by (auto simp: flipBoard180_def flipLoop_length split: if_splits)

lemma flipBoard180_nth:
  "flipBoard180 body = Returned b' \<Longrightarrow> j < length body \<Longrightarrow>
   b' ! j = (if 76 \<le> j \<and> ((j - 76) mod 20 = 4 \<or> (j - 76) mod 20 = 8)
             then body ! 8 - body ! j + 1 else body ! j)"
  by (auto simp: flipBoard180_def split: if_splits dest: flipLoop_nth)

lemma flip_byte_twice: "(n :: byte) - (n - c + 1) + 1 = c"
  by simp

lemma flip_byte_uint: "uint ((n :: byte) - c + 1) = (uint n - uint c + 1) mod 256"
  by (simp add: uint_word_ariths mod_simps)

lemma flipBoard180_twice:
  assumes "flipBoard180 body = Returned b1"
  shows "flipBoard180 b1 = Returned body"
proof -
  have l: "length b1 = length body" using assms by (rule flipBoard180_length)
  have "\<exists>b'. flipBoard180 body = Returned b'" using assms by blast
  then have c: "8 < length body \<and>
     (length body \<le> 76 \<or> (length body - 76) mod 20 = 0 \<or> 9 \<le> (length body - 76) mod 20)"
    by (simp only: flipBoard180_returns)
  then have "\<exists>b'. flipBoard180 b1 = Returned b'"
    by (simp only: flipBoard180_returns l)
  then obtain b2 where b2: "flipBoard180 b1 = Returned b2" by blast
  have l2: "length b2 = length body" using flipBoard180_length [OF b2] l by simp
  have e8: "b1 ! 8 = body ! 8" using flipBoard180_nth [OF assms, of 8] c by simp
  have "b2 ! j = body ! j" if "j < length body" for j
  proof -
    define P where "P \<longleftrightarrow> 76 \<le> j \<and> ((j - 76) mod 20 = 4 \<or> (j - 76) mod 20 = 8)"
    have j1: "j < length b1" using that l by simp
    have s2: "b2 ! j = (if P then b1 ! 8 - b1 ! j + 1 else b1 ! j)"
      unfolding P_def by (rule flipBoard180_nth [OF b2 j1])
    have s1: "b1 ! j = (if P then body ! 8 - body ! j + 1 else body ! j)"
      unfolding P_def by (rule flipBoard180_nth [OF assms that])
    show ?thesis using s1 s2 e8 by (cases P) simp_all
  qed
  then have "b2 = body" using l2 by (simp add: nth_equalityI)
  with b2 show ?thesis by simp
qed

section \<open>Properties of the timestamp refresh\<close>

lemma length_putUint32: "length (putUint32 v) = 4"
  by (simp add: putUint32_def)

lemma length_overwrite:
  "p + length bs \<le> length arr \<Longrightarrow> length (overwrite arr p bs) = length arr"
  by (simp add: overwrite_def)

lemma nth_overwrite:
  "p + length bs \<le> length arr \<Longrightarrow> j < length arr \<Longrightarrow>
   overwrite arr p bs ! j = (if p \<le> j \<and> j < p + length bs then bs ! (j - p) else arr ! j)"
  by (auto simp: overwrite_def nth_append)

lemma updateDates_Panic: "cap body < 56 \<Longrightarrow> updateDates t body = Panic"
  by (simp add: updateDates_def)

lemma updateDates_room:
  "64 \<le> cap body \<Longrightarrow>
   updateDates t body =
     Returned \<lparr>elems = take (len body)
                  (overwrite (overwrite (backing body) 56 (putUint32 (ucast t))) 60
                     (putUint32 (ucast t))),
               spare = drop (len body)
                  (overwrite (overwrite (backing body) 56 (putUint32 (ucast t))) 60
                     (putUint32 (ucast t)))\<rparr>"
  by (simp add: updateDates_def binaryWrite_def bufferWrite_def Let_def cap_def backing_def
      length_putUint32 length_overwrite)

lemma updateDates_shape:
  assumes "56 \<le> cap body"
  shows "\<exists>A. updateDates t body =
            Returned \<lparr>elems = take (len body) A, spare = drop (len body) A\<rparr> \<and>
          length A = cap body \<and>
          (\<forall>j < cap body. j < 56 \<or> 64 \<le> j \<longrightarrow> A ! j = backing body ! j)"
proof -
  let ?le = "putUint32 (ucast t)"
  let ?arr = "backing body"
  have la: "length ?arr = cap body" by (simp add: backing_def cap_def)
  consider (full) "64 \<le> cap body" | (half) "60 \<le> cap body" "cap body < 64" | (none) "cap body < 60"
    by linarith
  then show ?thesis
  proof cases
    case full
    let ?A = "overwrite (overwrite ?arr 56 ?le) 60 ?le"
    have l1: "length (overwrite ?arr 56 ?le) = cap body"
      using full la by (simp add: length_overwrite length_putUint32)
    have "length ?A = cap body"
      using full l1 by (simp add: length_overwrite length_putUint32)
    moreover have "\<forall>j < cap body. j < 56 \<or> 64 \<le> j \<longrightarrow> ?A ! j = ?arr ! j"
      using full l1 la by (auto simp: nth_overwrite length_putUint32)
    ultimately show ?thesis using updateDates_room [OF full, of t] by blast
  next
    case half
    let ?A = "overwrite ?arr 56 ?le"
    have u: "updateDates t body =
       Returned \<lparr>elems = take (len body) ?A, spare = drop (len body) ?A\<rparr>"
      using half la
      by (simp add: updateDates_def binaryWrite_def bufferWrite_def Let_def
          length_putUint32 length_overwrite)
    have "length ?A = cap body"
      using half la by (simp add: length_overwrite length_putUint32)
    moreover have "\<forall>j < cap body. j < 56 \<or> 64 \<le> j \<longrightarrow> ?A ! j = ?arr ! j"
      using half la by (auto simp: nth_overwrite length_putUint32)
    ultimately show ?thesis using u by blast
  next
    case none
    have u: "updateDates t body =
       Returned \<lparr>elems = take (len body) ?arr, spare = drop (len body) ?arr\<rparr>"
      using none assms la
      by (simp add: updateDates_def binaryWrite_def bufferWrite_def Let_def length_putUint32)
    show ?thesis using u la by blast
  qed
qed

lemma updateDates_returns:
  "(\<exists>b'. updateDates t body = Returned b') \<longleftrightarrow> 56 \<le> cap body"
proof (cases "56 \<le> cap body")
  case True
  then show ?thesis using updateDates_shape [OF True, of t] by blast
next
  case False
  then show ?thesis by (simp add: updateDates_Panic)
qed

lemma updateDates_not_Failed: "updateDates t body \<noteq> Failed e"
  by (simp add: updateDates_def Let_def)

lemma updateDates_frame:
  assumes "updateDates t body = Returned b'"
  shows "len b' = len body"
    and "j < len body \<Longrightarrow> j < 56 \<or> 64 \<le> j \<Longrightarrow> elems b' ! j = elems body ! j"
proof -
  have c: "56 \<le> cap body" using assms updateDates_returns [of t body] by blast
  from updateDates_shape [OF c, of t] obtain A where
    u: "updateDates t body = Returned \<lparr>elems = take (len body) A, spare = drop (len body) A\<rparr>"
    and l: "length A = cap body"
    and f: "\<forall>j < cap body. j < 56 \<or> 64 \<le> j \<longrightarrow> A ! j = backing body ! j"
    by blast
  have b': "b' = \<lparr>elems = take (len body) A, spare = drop (len body) A\<rparr>"
    using u assms by simp
  have lc: "len body \<le> cap body" by (simp add: len_def cap_def)
  show "len b' = len body" using b' l lc by (simp add: len_def)
  show "elems b' ! j = elems body ! j" if "j < len body" "j < 56 \<or> 64 \<le> j"
  proof -
    have "j < cap body" using that lc by simp
    then have "A ! j = backing body ! j" using f that by blast
    also have "\<dots> = elems body ! j" using that by (simp add: backing_def len_def nth_append)
    finally show ?thesis using b' that by simp
  qed
qed

lemma updateDates_long:
  assumes "64 \<le> len body"
  shows "updateDates t body =
     Returned (body\<lparr>elems := take 56 (elems body) @ putUint32 (ucast t) @ putUint32 (ucast t) @
                              drop 64 (elems body)\<rparr>)"
proof -
  have c: "64 \<le> cap body" using assms by (simp add: len_def cap_def)
  let ?le = "putUint32 (ucast t)"
  have A: "overwrite (overwrite (backing body) 56 ?le) 60 ?le =
        (take 56 (elems body) @ ?le @ ?le @ drop 64 (elems body)) @ spare body"
    using assms by (simp add: overwrite_def backing_def len_def length_putUint32)
  have n: "length (take 56 (elems body) @ ?le @ ?le @ drop 64 (elems body)) = len body"
    using assms by (simp add: len_def length_putUint32)
  have td: "take (len body) ((take 56 (elems body) @ ?le @ ?le @ drop 64 (elems body)) @ spare body)
          = take 56 (elems body) @ ?le @ ?le @ drop 64 (elems body)"
    "drop (len body) ((take 56 (elems body) @ ?le @ ?le @ drop 64 (elems body)) @ spare body)
          = spare body"
    using n by (metis append_eq_conv_conj)+
  show ?thesis
    unfolding updateDates_room [OF c] A td by (cases body) simp
qed

section \<open>Properties of the record mutation\<close>

lemma leUint32_putUint32:
  "leUint32 (ucast v) (ucast (drop_bit 8 v)) (ucast (drop_bit 16 v)) (ucast (drop_bit 24 v)) = v"
  unfolding leUint32_def
proof (rule bit_word_eqI)
  fix n
  assume "n < LENGTH(32)"
  then consider "n < 8" | "8 \<le> n" "n < 16" | "16 \<le> n" "n < 24" | "24 \<le> n" "n < 32"
    by fastforce
  then show "bit (ucast (ucast v :: byte) OR push_bit 8 (ucast (ucast (drop_bit 8 v) :: byte)) OR
                  push_bit 16 (ucast (ucast (drop_bit 16 v) :: byte)) OR
                  push_bit 24 (ucast (ucast (drop_bit 24 v) :: byte)) :: int32) n = bit v n"
    by cases (auto simp: bit_simps)
qed

lemma flipToComputer_short: "\<not> 16 < len body \<Longrightarrow> flipToComputer p t body = Panic"
proof (cases "flipBoard180 ((elems body)[4 := 1, 12 := 1])")
  case (Returned b3)
  then have "length b3 = length (elems body)" using flipBoard180_length by fastforce
  then show "\<not> 16 < len body \<Longrightarrow> flipToComputer p t body = Panic"
    using Returned by (simp add: flipToComputer_def assign_def len_def)
next
  case (Failed e)
  then show "\<not> 16 < len body \<Longrightarrow> flipToComputer p t body = Panic"
    by (simp add: flipBoard180_not_Failed)
next
  case Panic
  then show "\<not> 16 < len body \<Longrightarrow> flipToComputer p t body = Panic"
    by (simp add: flipToComputer_def assign_def len_def)
qed

lemma flipToComputer_black:
  "p \<noteq> ''w'' \<Longrightarrow> 16 < len body \<Longrightarrow>
   flipToComputer p t body =
     updateDates t (body\<lparr>elems := (elems body)[4 := 1, 12 := 0, 16 := 10]\<rparr>)"
  by (simp add: flipToComputer_def assign_def len_def)

lemma flipToComputer_white:
  assumes "16 < len body"
  shows "flipToComputer ''w'' t body =
     (case flipBoard180 ((elems body)[4 := 1, 12 := 1]) of
        Returned b3 \<Rightarrow> updateDates t (body\<lparr>elems := b3[16 := 10]\<rparr>)
      | Failed e \<Rightarrow> Failed e
      | Panic \<Rightarrow> Panic)"
proof (cases "flipBoard180 ((elems body)[4 := 1, 12 := 1])")
  case (Returned b3)
  then have "length b3 = length (elems body)" using flipBoard180_length by fastforce
  then show ?thesis
    using Returned assms by (simp add: flipToComputer_def assign_def len_def)
next
  case (Failed e)
  then show ?thesis using assms by (simp add: flipToComputer_def assign_def len_def)
next
  case Panic
  then show ?thesis using assms by (simp add: flipToComputer_def assign_def len_def)
qed

lemma cap_elems_update:
  "length b = len body \<Longrightarrow> cap (body\<lparr>elems := b\<rparr>) = cap body \<and> len (body\<lparr>elems := b\<rparr>) = len body"
  by (simp add: cap_def len_def)

lemma flipToComputer_white_returns:
  "(\<exists>body'. flipToComputer ''w'' t body = Returned body') \<longleftrightarrow>
     16 < len body \<and> 56 \<le> cap body \<and>
     (len body \<le> 76 \<or> (len body - 76) mod 20 = 0 \<or> 9 \<le> (len body - 76) mod 20)"
proof (cases "16 < len body")
  case False
  then show ?thesis by (simp add: flipToComputer_short)
next
  case True
  let ?b2 = "(elems body)[4 := 1, 12 := 1]"
  have l2: "length ?b2 = len body" by (simp add: len_def)
  show ?thesis
  proof (cases "flipBoard180 ?b2")
    case (Returned b3)
    have l3: "length (b3[16 := 10]) = len body"
      using flipBoard180_length [OF Returned] l2 by simp
    have "\<exists>b'. flipBoard180 ?b2 = Returned b'" using Returned by blast
    then have s: "len body \<le> 76 \<or> (len body - 76) mod 20 = 0 \<or> 9 \<le> (len body - 76) mod 20"
      unfolding flipBoard180_returns l2 by blast
    have "(\<exists>body'. flipToComputer ''w'' t body = Returned body') \<longleftrightarrow> 56 \<le> cap body"
      using Returned cap_elems_update [OF l3]
      by (simp add: flipToComputer_white [OF True] updateDates_returns)
    with True s show ?thesis by blast
  next
    case (Failed e)
    then show ?thesis by (simp add: flipBoard180_not_Failed)
  next
    case Panic
    then have "\<not> (\<exists>b'. flipBoard180 ?b2 = Returned b')" by simp
    then have s: "\<not> (len body \<le> 76 \<or> (len body - 76) mod 20 = 0 \<or> 9 \<le> (len body - 76) mod 20)"
      unfolding flipBoard180_returns l2 using True by simp
    have "flipToComputer ''w'' t body = Panic"
      using Panic by (simp add: flipToComputer_white [OF True])
    with s show ?thesis by simp
  qed
qed

lemma flipToComputer_white_result:
  assumes "flipToComputer ''w'' t body = Returned body'"
  shows "len body' = len body"
    and "elems body' ! 12 = 1"
    and "76 \<le> j \<Longrightarrow> j < len body \<Longrightarrow>
         elems body' ! j =
           (if (j - 76) mod 20 = 4 \<or> (j - 76) mod 20 = 8
            then elems body ! 8 - elems body ! j + 1 else elems body ! j)"
proof -
  have "\<exists>b. flipToComputer ''w'' t body = Returned b" using assms by blast
  then have L: "16 < len body" unfolding flipToComputer_white_returns by blast
  let ?b2 = "(elems body)[4 := 1, 12 := 1]"
  have l2: "length ?b2 = len body" by (simp add: len_def)
  obtain b3 where b3: "flipBoard180 ?b2 = Returned b3"
    and u: "updateDates t (body\<lparr>elems := b3[16 := 10]\<rparr>) = Returned body'"
    using assms unfolding flipToComputer_white [OF L]
    by (cases "flipBoard180 ?b2") simp_all
  have l3: "length b3 = len body" using flipBoard180_length [OF b3] l2 by simp
  then have l4: "len (body\<lparr>elems := b3[16 := 10]\<rparr>) = len body" by (simp add: len_def)
  show "len body' = len body" using updateDates_frame(1) [OF u] l4 by simp
  have "elems body' ! 12 = b3[16 := 10] ! 12"
    using updateDates_frame(2) [OF u, of 12] l4 L by simp
  also have "\<dots> = b3 ! 12" by simp
  also have "\<dots> = ?b2 ! 12" using flipBoard180_nth [OF b3, of 12] L l2 by simp
  also have "\<dots> = 1" using L by (simp add: len_def)
  finally show "elems body' ! 12 = 1" .
  show "elems body' ! j =
           (if (j - 76) mod 20 = 4 \<or> (j - 76) mod 20 = 8
            then elems body ! 8 - elems body ! j + 1 else elems body ! j)"
    if "76 \<le> j" "j < len body"
  proof -
    have "elems body' ! j = b3[16 := 10] ! j"
      using updateDates_frame(2) [OF u, of j] l4 that by simp
    also have "\<dots> = b3 ! j" using that by simp
    also have "\<dots> = (if 76 \<le> j \<and> ((j - 76) mod 20 = 4 \<or> (j - 76) mod 20 = 8)
             then ?b2 ! 8 - ?b2 ! j + 1 else ?b2 ! j)"
      by (rule flipBoard180_nth [OF b3]) (use that in \<open>simp add: len_def\<close>)
    also have "\<dots> = (if (j - 76) mod 20 = 4 \<or> (j - 76) mod 20 = 8
            then elems body ! 8 - elems body ! j + 1 else elems body ! j)"
      using that by (simp add: len_def)
    finally show ?thesis .
  qed
qed

lemma flipToComputer_dates_set:
  assumes "64 \<le> len body" and "flipToComputer p t body = Returned body'"
  shows "\<exists>b4. length b4 = len body \<and>
     body' = body\<lparr>elems := take 56 b4 @ putUint32 (ucast t) @ putUint32 (ucast t) @ drop 64 b4\<rparr>"
proof -
  have L: "16 < len body" using assms(1) by simp
  have step: "\<exists>b4. length b4 = len body \<and> updateDates t (body\<lparr>elems := b4\<rparr>) = Returned body'"
  proof (cases "p = ''w''")
    case False
    have "length ((elems body)[4 := 1, 12 := 0, 16 := 10]) = len body" by (simp add: len_def)
    then show ?thesis using assms(2) flipToComputer_black [OF False L, of t] by metis
  next
    case True
    let ?b2 = "(elems body)[4 := 1, 12 := 1]"
    obtain b3 where b3: "flipBoard180 ?b2 = Returned b3"
      and u: "updateDates t (body\<lparr>elems := b3[16 := 10]\<rparr>) = Returned body'"
      using assms(2) True unfolding True flipToComputer_white [OF L]
      by (cases "flipBoard180 ?b2") simp_all
    have "length (b3[16 := 10]) = len body"
      using flipBoard180_length [OF b3] by (simp add: len_def)
    then show ?thesis using u by blast
  qed
  then obtain b4 where l4: "length b4 = len body"
    and u: "updateDates t (body\<lparr>elems := b4\<rparr>) = Returned body'" by blast
  have "64 \<le> len (body\<lparr>elems := b4\<rparr>)" using l4 assms(1) by (simp add: len_def)
  from updateDates_long [OF this, of t] u l4 show ?thesis by auto
qed

lemma dates_fields:
  assumes "64 \<le> length b4" and "length le = 4"
  shows "take 4 (drop 56 (take 56 b4 @ le @ le @ drop 64 b4)) = le"
    and "take 4 (drop 60 (take 56 b4 @ le @ le @ drop 64 b4)) = le"
    and "length (take 56 b4 @ le @ le @ drop 64 b4) = length b4"
  using assms by simp_all

lemma binaryRead_putUint32: "binaryRead (putUint32 v) = Inr v"
  by (simp add: binaryRead_def putUint32_def leUint32_putUint32)

lemma getSavedDate_eq:
  "getSavedDate body =
     (if cap body < 64 then Panic
      else Returned (leUint32 (backing body ! 60) (backing body ! 61)
                              (backing body ! 62) (backing body ! 63)))"
proof (cases "cap body < 64")
  case True
  then show ?thesis by (simp add: getSavedDate_def)
next
  case False
  then have l: "64 \<le> length (backing body)" by (simp add: backing_def cap_def)
  then have "length (take 4 (drop 60 (backing body))) = 4" by simp
  then have "binaryRead (take 4 (drop 60 (backing body))) =
      Inr (leUint32 (backing body ! 60) (backing body ! 61) (backing body ! 62) (backing body ! 63))"
    using l unfolding binaryRead_def by simp
  then show ?thesis using False by (simp add: getSavedDate_def)
qed

lemma getSavedDate_never_Failed: "getSavedDate body \<noteq> Failed e"
  by (simp add: getSavedDate_eq)

lemma getSavedDate_fields:
  assumes "64 \<le> len body" and "take 4 (drop 60 (elems body)) = putUint32 v"
  shows "getSavedDate body = Returned v"
proof -
  have "take 4 (drop 60 (backing body)) = take 4 (drop 60 (elems body))"
    using assms(1) by (simp add: backing_def len_def)
  then show ?thesis
    using assms by (simp add: getSavedDate_def cap_def len_def binaryRead_putUint32)
qed

text \<open>
  Claim C1. The claim is that the board flip never indexes past the end of the buffer and
  takes a short trailing stride for no stride. The loop guard of \<open>flipBoard180\<close> is
  \<open>i < len(body)\<close> while the body indexes \<open>i+4\<close> and \<open>i+8\<close>: on a buffer of 77
  bytes the stride at 76 is entered, \<open>body[80]\<close> is out of range and the call panics,
  alone and inside \<open>flipToComputer\<close> with the player white.
\<close>

theorem flipBoard180_short_stride_panics:
  "flipBoard180 (replicate 77 0) = Panic \<and>
   flipToComputer ''w'' 0 \<lparr>elems = replicate 77 0, spare = []\<rparr> = Panic"
proof
  show "flipBoard180 (replicate 77 0) = Panic"
    by code_simp
  show "flipToComputer ''w'' 0 \<lparr>elems = replicate 77 0, spare = []\<rparr> = Panic"
    by code_simp
qed

text \<open>
  The white path where it does return. \<open>flipToComputer\<close> returns exactly on the buffers of
  more than 16 bytes and capacity at least 56 whose last stride, if cut, keeps 9 bytes or
  more. When it returns, the length is kept, the byte at offset 12 is 1, and every byte
  from offset 76 on is unchanged unless it is at relative offset 4 or 8 of a 20-byte
  stride, where it is \<open>n - c + 1\<close> for \<open>n\<close> the byte at offset 8 of the buffer as it
  was given and \<open>c\<close> the byte before; that value is \<open>n - c + 1\<close> modulo 256.
\<close>

theorem flipToComputer_white_flips:
  "((\<exists>body'. flipToComputer ''w'' t body = Returned body') \<longleftrightarrow>
      16 < len body \<and> 56 \<le> cap body \<and>
      (len body \<le> 76 \<or> (len body - 76) mod 20 = 0 \<or> 9 \<le> (len body - 76) mod 20)) \<and>
   (flipToComputer ''w'' t body = Returned body' \<longrightarrow>
      len body' = len body \<and>
      elems body' ! 12 = 1 \<and>
      (\<forall>j. 76 \<le> j \<and> j < len body \<longrightarrow>
         elems body' ! j =
           (if (j - 76) mod 20 = 4 \<or> (j - 76) mod 20 = 8
            then elems body ! 8 - elems body ! j + 1 else elems body ! j)) \<and>
      (\<forall>j. 76 \<le> j \<and> j < len body \<and> ((j - 76) mod 20 = 4 \<or> (j - 76) mod 20 = 8) \<longrightarrow>
         uint (elems body' ! j) = (uint (elems body ! 8) - uint (elems body ! j) + 1) mod 256))"
proof (intro conjI impI)
  show "(\<exists>body'. flipToComputer ''w'' t body = Returned body') \<longleftrightarrow>
      16 < len body \<and> 56 \<le> cap body \<and>
      (len body \<le> 76 \<or> (len body - 76) mod 20 = 0 \<or> 9 \<le> (len body - 76) mod 20)"
    by (rule flipToComputer_white_returns)
next
  assume r: "flipToComputer ''w'' t body = Returned body'"
  show "len body' = len body" by (rule flipToComputer_white_result(1) [OF r])
  show "elems body' ! 12 = 1" by (rule flipToComputer_white_result(2) [OF r])
  show "\<forall>j. 76 \<le> j \<and> j < len body \<longrightarrow>
         elems body' ! j =
           (if (j - 76) mod 20 = 4 \<or> (j - 76) mod 20 = 8
            then elems body ! 8 - elems body ! j + 1 else elems body ! j)"
    using flipToComputer_white_result(3) [OF r] by blast
  show "\<forall>j. 76 \<le> j \<and> j < len body \<and> ((j - 76) mod 20 = 4 \<or> (j - 76) mod 20 = 8) \<longrightarrow>
         uint (elems body' ! j) = (uint (elems body ! 8) - uint (elems body ! j) + 1) mod 256"
  proof (intro allI impI)
    fix j
    assume a: "76 \<le> j \<and> j < len body \<and> ((j - 76) mod 20 = 4 \<or> (j - 76) mod 20 = 8)"
    then have "elems body' ! j = elems body ! 8 - elems body ! j + 1"
      using flipToComputer_white_result(3) [OF r, of j] by presburger
    then show "uint (elems body' ! j) = (uint (elems body ! 8) - uint (elems body ! j) + 1) mod 256"
      by (simp only: flip_byte_uint)
  qed
qed

theorem flipToComputer_white_flips_witness:
  "flipToComputer ''w'' 5
      \<lparr>elems = replicate 8 0 @ [19] @ replicate 71 0 @ [3, 0, 0, 0, 16], spare = []\<rparr> =
     Returned
      \<lparr>elems = replicate 4 0 @ [1] @ replicate 3 0 @ [19] @ replicate 3 0 @ [1] @ replicate 3 0 @
                [10] @ replicate 39 0 @ [5, 0, 0, 0, 5, 0, 0, 0] @ replicate 16 0 @
                [17, 0, 0, 0, 4],
       spare = []\<rparr> \<and>
   elems \<lparr>elems = replicate 4 0 @ [1] @ replicate 3 0 @ [19] @ replicate 3 0 @ [1] @
                   replicate 3 0 @ [10] @ replicate 39 0 @ [5, 0, 0, 0, 5, 0, 0, 0] @
                   replicate 16 0 @ [17, 0, 0, 0, 4 :: byte],
          spare = []\<rparr> ! 12 = 1 \<and>
   uint (elems \<lparr>elems = replicate 4 0 @ [1] @ replicate 3 0 @ [19] @ replicate 3 0 @ [1] @
                   replicate 3 0 @ [10] @ replicate 39 0 @ [5, 0, 0, 0, 5, 0, 0, 0] @
                   replicate 16 0 @ [17, 0, 0, 0, 4 :: byte],
          spare = []\<rparr> ! 80) = (19 - 3 + 1) mod 256"
proof -
  let ?B0 = "\<lparr>elems = replicate 8 0 @ [19] @ replicate 71 0 @ [3, 0, 0, 0, 16 :: byte], spare = []\<rparr>"
  let ?B1 = "\<lparr>elems = replicate 4 0 @ [1] @ replicate 3 0 @ [19] @ replicate 3 0 @ [1] @
                   replicate 3 0 @ [10] @ replicate 39 0 @ [5, 0, 0, 0, 5, 0, 0, 0] @
                   replicate 16 0 @ [17, 0, 0, 0, 4 :: byte],
          spare = []\<rparr>"
  have h: "flipToComputer ''w'' 5 ?B0 = Returned ?B1"
    by code_simp
  have l: "len ?B0 = 85" by (simp add: len_def)
  have e8: "elems ?B0 ! 8 = 19" by (simp add: nth_append)
  have e80: "elems ?B0 ! 80 = 3" by (simp add: nth_append)
  from flipToComputer_white_flips [of 5 ?B0 ?B1] h
  have p: "elems ?B1 ! 12 = 1"
    and q: "\<forall>j. 76 \<le> j \<and> j < len ?B0 \<and> ((j - 76) mod 20 = 4 \<or> (j - 76) mod 20 = 8) \<longrightarrow>
         uint (elems ?B1 ! j) = (uint (elems ?B0 ! 8) - uint (elems ?B0 ! j) + 1) mod 256"
    by blast+
  have "uint (elems ?B1 ! 80) = (uint (elems ?B0 ! 8) - uint (elems ?B0 ! 80) + 1) mod 256"
    using q [rule_format, of 80] l by simp
  then have "uint (elems ?B1 ! 80) = (19 - 3 + 1) mod 256"
    unfolding e8 e80 by simp
  with h p show ?thesis by blast
qed

text \<open>
  Claim C6. The claim is that, with the player white, \<open>flipToComputer\<close> sets the flag
  at offset 12 and replaces the two coordinates of every stride, on every buffer. On a
  buffer of 97 bytes, one whole stride and one byte more, in the 512 bytes that
  \<open>ioutil.ReadAll\<close> allocates, the loop of \<open>flipBoard180\<close> enters the stride at 96
  and indexes \<open>body[100]\<close>: the call panics and returns no buffer. The guard of the
  loop tests \<open>i\<close> where the body needs \<open>i+8\<close>.
\<close>

theorem flipToComputer_white_cut_stride:
  "flipToComputer ''w'' 1700000000
     \<lparr>elems = replicate 8 0 @ [19] @ replicate 71 0 @ [3, 0, 0, 0, 16] @ replicate 12 0,
      spare = replicate 415 0\<rparr> = Panic"
  by code_simp

text \<open>
  The dates where they are written. On a buffer of at least 64 bytes the last step of
  \<open>flipToComputer\<close> puts the four little-endian bytes of the time, cut to 32 bits, at
  offsets 56 to 59 and again at 60 to 63 and leaves every other byte as it was.
  \<open>flipToComputer\<close> ends with that step: it returns whenever the player is not white
  or the last stride keeps 9 bytes or more, and what it returns has both fields set, so
  that \<open>getSavedDate\<close> reads the time back.
\<close>

theorem flipToComputer_sets_dates:
  assumes "64 \<le> len body"
  shows
   "updateDates t body =
      Returned (body\<lparr>elems := take 56 (elems body) @ putUint32 (ucast t) @ putUint32 (ucast t) @
                               drop 64 (elems body)\<rparr>) \<and>
    (p \<noteq> ''w'' \<or> len body \<le> 76 \<or> (len body - 76) mod 20 = 0 \<or> 9 \<le> (len body - 76) mod 20 \<longrightarrow>
       (\<exists>body'. flipToComputer p t body = Returned body')) \<and>
    (flipToComputer p t body = Returned body' \<longrightarrow>
       len body' = len body \<and>
       take 4 (drop 56 (elems body')) = putUint32 (ucast t) \<and>
       take 4 (drop 60 (elems body')) = putUint32 (ucast t) \<and>
       getSavedDate body' = Returned (ucast t))"
proof (intro conjI impI)
  show "updateDates t body =
      Returned (body\<lparr>elems := take 56 (elems body) @ putUint32 (ucast t) @ putUint32 (ucast t) @
                               drop 64 (elems body)\<rparr>)"
    by (rule updateDates_long [OF assms])
next
  assume c: "p \<noteq> ''w'' \<or> len body \<le> 76 \<or> (len body - 76) mod 20 = 0 \<or> 9 \<le> (len body - 76) mod 20"
  have L: "16 < len body" and C: "56 \<le> cap body" using assms by (simp_all add: len_def cap_def)
  show "\<exists>body'. flipToComputer p t body = Returned body'"
  proof (cases "p = ''w''")
    case True
    with c L C show ?thesis unfolding True flipToComputer_white_returns by blast
  next
    case False
    have "56 \<le> cap (body\<lparr>elems := (elems body)[4 := 1, 12 := 0, 16 := 10]\<rparr>)"
      using C by (simp add: cap_def)
    then show ?thesis
      unfolding flipToComputer_black [OF False L] updateDates_returns .
  qed
next
  assume r: "flipToComputer p t body = Returned body'"
  from flipToComputer_dates_set [OF assms r] obtain b4 where l4: "length b4 = len body"
    and b': "body' = body\<lparr>elems := take 56 b4 @ putUint32 (ucast t) @ putUint32 (ucast t) @
                                    drop 64 b4\<rparr>"
    by blast
  have l64: "64 \<le> length b4" using l4 assms by simp
  note f = dates_fields [OF l64 length_putUint32 [of "ucast t"]]
  show n: "len body' = len body" using f(3) l4 by (simp add: b' len_def)
  show "take 4 (drop 56 (elems body')) = putUint32 (ucast t)" using f(1) by (simp add: b')
  show s: "take 4 (drop 60 (elems body')) = putUint32 (ucast t)" using f(2) by (simp add: b')
  show "getSavedDate body' = Returned (ucast t)"
    by (rule getSavedDate_fields) (use n assms s in simp_all)
qed

theorem flipToComputer_sets_dates_witness:
  "updateDates 5 \<lparr>elems = replicate 64 0, spare = []\<rparr> =
     Returned \<lparr>elems = replicate 56 0 @ [5, 0, 0, 0, 5, 0, 0, 0], spare = []\<rparr> \<and>
   flipToComputer ''b'' 5 \<lparr>elems = replicate 64 0, spare = []\<rparr> =
     Returned \<lparr>elems = replicate 4 0 @ [1] @ replicate 11 0 @ [10] @ replicate 39 0 @
                        [5, 0, 0, 0, 5, 0, 0, 0], spare = []\<rparr> \<and>
   getSavedDate \<lparr>elems = replicate 4 0 @ [1] @ replicate 11 0 @ [10] @ replicate 39 0 @
                        [5, 0, 0, 0, 5, 0, 0, 0], spare = []\<rparr> = Returned 5"
proof -
  let ?B = "\<lparr>elems = replicate 64 (0 :: byte), spare = []\<rparr>"
  let ?B' = "\<lparr>elems = replicate 4 0 @ [1] @ replicate 11 0 @ [10] @ replicate 39 0 @
                        [5, 0, 0, 0, 5, 0, 0, 0 :: byte], spare = []\<rparr>"
  have a: "64 \<le> len ?B" by (simp add: len_def)
  have h: "flipToComputer ''b'' 5 ?B = Returned ?B'"
    by code_simp
  have u: "?B\<lparr>elems := take 56 (elems ?B) @ putUint32 (ucast (5 :: int64)) @
                 putUint32 (ucast (5 :: int64)) @ drop 64 (elems ?B)\<rparr> =
           \<lparr>elems = replicate 56 0 @ [5, 0, 0, 0, 5, 0, 0, 0], spare = []\<rparr>"
    by (simp add: putUint32_def)
  from flipToComputer_sets_dates [OF a, of 5 "''b''" ?B'] h
  have w: "updateDates 5 ?B =
      Returned (?B\<lparr>elems := take 56 (elems ?B) @ putUint32 (ucast (5 :: int64)) @
                 putUint32 (ucast (5 :: int64)) @ drop 64 (elems ?B)\<rparr>)"
    and g: "getSavedDate ?B' = Returned (ucast (5 :: int64))"
    by blast+
  have "getSavedDate ?B' = Returned 5" using g by simp
  with h w [unfolded u] show ?thesis by blast
qed

text \<open>
  Claim C7. The claim is that \<open>flipToComputer\<close> overwrites both date fields on every
  buffer of at least 64 bytes. On a buffer of 117 bytes, two whole strides and one byte
  more, with the player white, \<open>flipBoard180\<close> panics before the dates are written;
  with the player black the same buffer comes back with both fields set. The guard of the
  loop tests \<open>i\<close> where the body needs \<open>i+8\<close>.
\<close>

theorem flipToComputer_dates_cut_stride:
  "flipToComputer ''w'' 1700000000 \<lparr>elems = replicate 117 0, spare = replicate 395 0\<rparr> =
     Panic \<and>
   flipToComputer ''b'' 1700000000 \<lparr>elems = replicate 117 0, spare = replicate 395 0\<rparr> =
     Returned
       \<lparr>elems = replicate 4 0 @ [1] @ replicate 11 0 @ [10] @ replicate 39 0 @
                 [0x00, 0xF1, 0x53, 0x65, 0x00, 0xF1, 0x53, 0x65] @ replicate 53 0,
        spare = replicate 395 0\<rparr>"
proof
  show "flipToComputer ''w'' 1700000000 \<lparr>elems = replicate 117 0, spare = replicate 395 0\<rparr> =
     Panic"
    by code_simp
  show "flipToComputer ''b'' 1700000000 \<lparr>elems = replicate 117 0, spare = replicate 395 0\<rparr> =
     Returned
       \<lparr>elems = replicate 4 0 @ [1] @ replicate 11 0 @ [10] @ replicate 39 0 @
                 [0x00, 0xF1, 0x53, 0x65, 0x00, 0xF1, 0x53, 0x65] @ replicate 53 0,
        spare = replicate 395 0\<rparr>"
    by code_simp
qed

text \<open>
  Claim C9. In 8-bit arithmetic \<open>n - (n - c + 1) + 1 = c\<close>, and a second run of
  \<open>flipBoard180\<close> on what a first run returned gives the first buffer back: the byte at
  offset 8 is not a coordinate, so both runs use the same board size.
\<close>

theorem flipBoard180_involution:
  "(n :: byte) - (n - c + 1) + 1 = c \<and>
   (flipBoard180 body = Returned b1 \<longrightarrow> flipBoard180 b1 = Returned body)"
  using flipBoard180_twice [of body b1] by simp

theorem flipBoard180_involution_witness:
  "flipBoard180 (replicate 8 0 @ [19] @ replicate 71 0 @ [3, 0, 0, 0, 16]) =
     Returned (replicate 8 0 @ [19] @ replicate 71 0 @ [17, 0, 0, 0, 4]) \<and>
   flipBoard180 (replicate 8 0 @ [19] @ replicate 71 0 @ [17, 0, 0, 0, 4]) =
     Returned (replicate 8 0 @ [19] @ replicate 71 0 @ [3, 0, 0, 0, 16])"
proof -
  have h: "flipBoard180 (replicate 8 0 @ [19] @ replicate 71 0 @ [3, 0, 0, 0, 16]) =
     Returned (replicate 8 0 @ [19] @ replicate 71 0 @ [17, 0, 0, 0, 4])"
    by code_simp
  from flipBoard180_involution
    [of _ _ "replicate 8 0 @ [19] @ replicate 71 0 @ [3, 0, 0, 0, 16]"
            "replicate 8 0 @ [19] @ replicate 71 0 @ [17, 0, 0, 0, 4]"] h
  show ?thesis by blast
qed

section \<open>Properties of the scan\<close>

lemma scanLoop_skip:
  "\<not> selected prefix f \<Longrightarrow> scanLoop prefix (f # fs) st = scanLoop prefix fs st"
  by (cases st) (auto simp: selected_def)

lemma scanLoop_take:
  "selected prefix f \<Longrightarrow> readsAs f body d \<Longrightarrow>
   scanLoop prefix (f # fs) (l, lb, ld) =
     (if sint ld < sint d then scanLoop prefix fs (Name f, body, d)
      else scanLoop prefix fs (l, lb, ld))"
  by (simp add: selected_def readsAs_def)

lemma scanLoop_stuck:
  "selected prefix f \<Longrightarrow> \<not> (\<exists>body d. readsAs f body d) \<Longrightarrow>
   scanLoop prefix (f # fs) st \<noteq> Returned st'"
  by (cases st) (auto simp: selected_def readsAs_def split: sum.splits outcome.splits)

declare scanLoop.simps(2) [simp del]

lemma readsAs_fun:
  "readsAs f body d \<Longrightarrow> readsAs f body' d' \<Longrightarrow> body' = body \<and> d' = d"
  by (auto simp: readsAs_def)

lemma scanLoop_returns:
  "(\<exists>st'. scanLoop prefix fs st = Returned st') \<longleftrightarrow>
   (\<forall>f \<in> set fs. selected prefix f \<longrightarrow> (\<exists>body d. readsAs f body d))"
proof (induction fs arbitrary: st)
  case Nil
  show ?case by (metis scanLoop.simps(1) empty_iff list.set(1))
next
  case (Cons f fs st)
  obtain l lb ld where st: "st = (l, lb, ld)" by (metis prod_cases3)
  show ?case
  proof (cases "selected prefix f")
    case False
    then show ?thesis using Cons.IH [of st] by (simp add: scanLoop_skip)
  next
    case True
    show ?thesis
    proof (cases "\<exists>body d. readsAs f body d")
      case False
      then show ?thesis using True scanLoop_stuck [OF True False] by auto
    next
      case r: True
      then obtain body d where rd: "readsAs f body d" by blast
      show ?thesis
        using Cons.IH [of "(Name f, body, d)"] Cons.IH [of "(l, lb, ld)"] r
        by (simp add: st scanLoop_take [OF True rd])
    qed
  qed
qed

text \<open>
  What the loop returns: either the state it started from, and then no selected entry has
  a date above the one it started with, or the first selected entry whose date is the
  greatest, and then that date is above the one it started with.
\<close>

lemma scanLoop_result:
  assumes "scanLoop prefix fs (l, lb, ld) = Returned (l', lb', ld')"
  shows "((l', lb', ld') = (l, lb, ld) \<and>
          (\<forall>f \<in> set fs. selected prefix f \<longrightarrow> (\<exists>b d. readsAs f b d \<and> sint d \<le> sint ld))) \<or>
         (\<exists>pre e post. filter (selected prefix) fs = pre @ e # post \<and>
            l' = Name e \<and> readsAs e lb' ld' \<and> sint ld < sint ld' \<and>
            (\<forall>f \<in> set pre. \<exists>b d. readsAs f b d \<and> sint d < sint ld') \<and>
            (\<forall>f \<in> set post. \<exists>b d. readsAs f b d \<and> sint d \<le> sint ld'))"
  using assms
proof (induction fs arbitrary: l lb ld)
  case Nil
  then show ?case by simp
next
  case (Cons f fs l lb ld)
  show ?case
  proof (cases "selected prefix f")
    case False
    from Cons.prems have "scanLoop prefix fs (l, lb, ld) = Returned (l', lb', ld')"
      by (simp add: scanLoop_skip [OF False])
    from Cons.IH [OF this] show ?thesis using False by simp
  next
    case True
    have "\<exists>body d. readsAs f body d"
      using scanLoop_stuck [OF True, of fs "(l, lb, ld)" "(l', lb', ld')"] Cons.prems by blast
    then obtain body d where rd: "readsAs f body d" by blast
    show ?thesis
    proof (cases "sint ld < sint d")
      case lt: True
      with Cons.prems have r: "scanLoop prefix fs (Name f, body, d) = Returned (l', lb', ld')"
        by (simp add: scanLoop_take [OF True rd])
      from Cons.IH [OF r] show ?thesis
      proof
        assume a: "(l', lb', ld') = (Name f, body, d) \<and>
          (\<forall>f \<in> set fs. selected prefix f \<longrightarrow> (\<exists>b d'. readsAs f b d' \<and> sint d' \<le> sint d))"
        have "filter (selected prefix) (f # fs) = [] @ f # filter (selected prefix) fs"
          using True by simp
        moreover have "\<forall>g \<in> set (filter (selected prefix) fs). \<exists>b d'. readsAs g b d' \<and> sint d' \<le> sint ld'"
          using a by auto
        ultimately show ?thesis using a rd lt by (intro disjI2 exI conjI) auto
      next
        assume "\<exists>pre e post. filter (selected prefix) fs = pre @ e # post \<and>
            l' = Name e \<and> readsAs e lb' ld' \<and> sint d < sint ld' \<and>
            (\<forall>f \<in> set pre. \<exists>b d. readsAs f b d \<and> sint d < sint ld') \<and>
            (\<forall>f \<in> set post. \<exists>b d. readsAs f b d \<and> sint d \<le> sint ld')"
        then obtain pre e post where b: "filter (selected prefix) fs = pre @ e # post"
            "l' = Name e" "readsAs e lb' ld'" "sint d < sint ld'"
            "\<forall>f \<in> set pre. \<exists>b d. readsAs f b d \<and> sint d < sint ld'"
            "\<forall>f \<in> set post. \<exists>b d. readsAs f b d \<and> sint d \<le> sint ld'"
          by blast
        have "filter (selected prefix) (f # fs) = (f # pre) @ e # post"
          using True b(1) by simp
        moreover have "\<forall>g \<in> set (f # pre). \<exists>b d. readsAs g b d \<and> sint d < sint ld'"
          using b(4,5) rd by auto
        moreover have "sint ld < sint ld'" using lt b(4) by simp
        ultimately show ?thesis using b(2,3,6) by blast
      qed
    next
      case ge: False
      with Cons.prems have r: "scanLoop prefix fs (l, lb, ld) = Returned (l', lb', ld')"
        by (simp add: scanLoop_take [OF True rd])
      from Cons.IH [OF r] show ?thesis
      proof
        assume a: "(l', lb', ld') = (l, lb, ld) \<and>
          (\<forall>f \<in> set fs. selected prefix f \<longrightarrow> (\<exists>b d. readsAs f b d \<and> sint d \<le> sint ld))"
        have "sint d \<le> sint ld" using ge by simp
        with rd have "\<exists>b d'. readsAs f b d' \<and> sint d' \<le> sint ld" by blast
        with a show ?thesis by auto
      next
        assume "\<exists>pre e post. filter (selected prefix) fs = pre @ e # post \<and>
            l' = Name e \<and> readsAs e lb' ld' \<and> sint ld < sint ld' \<and>
            (\<forall>f \<in> set pre. \<exists>b d. readsAs f b d \<and> sint d < sint ld') \<and>
            (\<forall>f \<in> set post. \<exists>b d. readsAs f b d \<and> sint d \<le> sint ld')"
        then obtain pre e post where b: "filter (selected prefix) fs = pre @ e # post"
            "l' = Name e" "readsAs e lb' ld'" "sint ld < sint ld'"
            "\<forall>f \<in> set pre. \<exists>b d. readsAs f b d \<and> sint d < sint ld'"
            "\<forall>f \<in> set post. \<exists>b d. readsAs f b d \<and> sint d \<le> sint ld'"
          by blast
        have "filter (selected prefix) (f # fs) = (f # pre) @ e # post"
          using True b(1) by simp
        moreover have "sint d < sint ld'" using ge b(4) by simp
        then have "\<forall>g \<in> set (f # pre). \<exists>b d. readsAs g b d \<and> sint d < sint ld'"
          using b(5) rd by auto
        ultimately show ?thesis using b(2,3,4,6) by blast
      qed
    qed
  qed
qed

lemma scanLoop_none:
  "\<forall>f \<in> set fs. \<not> selected prefix f \<Longrightarrow> scanLoop prefix fs st = Returned st"
  by (induction fs) (simp_all add: scanLoop_skip)

lemma scanLoop_all_below:
  "\<forall>f \<in> set fs. selected prefix f \<longrightarrow> (\<exists>b d. readsAs f b d \<and> sint d \<le> sint ld) \<Longrightarrow>
   scanLoop prefix fs (l, lb, ld) = Returned (l, lb, ld)"
proof (induction fs)
  case Nil
  show ?case by simp
next
  case (Cons f fs)
  show ?case
  proof (cases "selected prefix f")
    case False
    then show ?thesis using Cons by (simp add: scanLoop_skip)
  next
    case True
    then obtain b d where "readsAs f b d" "sint d \<le> sint ld" using Cons.prems by auto
    then show ?thesis using Cons True by (simp add: scanLoop_take)
  qed
qed

lemma readAvx_scan:
  "readAvx (Inr files) online =
     (case scanLoop (gamePrefix online) files ([], nil, - 1) of
        Returned (latest, latestBody, latestDate) \<Rightarrow> Returned (latest, latestBody)
      | Failed err \<Rightarrow> Failed err
      | Panic \<Rightarrow> Panic)"
  by (simp add: readAvx_def)

lemma sint_minus_one: "sint (- 1 :: int32) = - 1"
  by simp

text \<open>
  Claim C2, as amended. The claim is that \<open>readAvx\<close> fails with a NotFoundError when
  no entry that is not a directory has a name starting with the prefix. The program has
  no such error: when no entry passes the two tests of the loop, \<open>readAvx\<close> returns the
  values its variables were declared with, the empty name and the nil slice, and a nil
  error.
\<close>

theorem readAvx_no_match:
  assumes "\<forall>f \<in> set files. \<not> selected (gamePrefix online) f"
  shows "readAvx (Inr files) online = Returned ([], nil)"
  using scanLoop_none [OF assms, of "([], nil, - 1)"] by (simp add: readAvx_scan)

theorem readAvx_no_match_witness:
  "readAvx (Inr [\<lparr>Name = ''Container/Documents/game/7.sgf'', IsDir = False,
                   Open = Inr \<lparr>content = replicate 64 1, fault = None, slack = []\<rparr>\<rparr>]) True =
     Returned ([], nil)"
  by (rule readAvx_no_match) (simp add: selected_def gamePrefix_def HasPrefix_def)

theorem readAvx_no_match_counterexample:
  "readAvx (Inr [\<lparr>Name = ''Container/Documents/game/'', IsDir = True,
                   Open = Inl (LibError 0)\<rparr>,
                 \<lparr>Name = ''Container/Documents/notes.txt'', IsDir = False,
                   Open = Inr \<lparr>content = replicate 64 1, fault = None, slack = []\<rparr>\<rparr>]) False =
     Returned ([], nil) \<and>
   readAvx (Inr []) False = Returned ([], nil)"
  by (simp add: readAvx_def scanLoop.simps gamePrefix_def HasPrefix_def)

text \<open>
  Claim C3. The claim is that \<open>getSavedDate\<close> returns an error on a buffer shorter than
  64 bytes. \<open>getSavedDate\<close> slices \<open>body[60:64]\<close> with no test of the length before:
  on a buffer of 10 bytes and capacity 10 the slice expression panics, and on 10 bytes
  in a buffer of capacity 512 it reads the four bytes beyond the payload and returns them
  as the date. \<open>readAvx\<close> on an archive with such an entry panics in the first case and
  returns that entry in the second. No error is returned in either.
\<close>

theorem getSavedDate_short_buffer:
  "getSavedDate \<lparr>elems = replicate 10 0, spare = []\<rparr> = Panic \<and>
   getSavedDate \<lparr>elems = replicate 10 0, spare = replicate 502 0\<rparr> = Returned 0 \<and>
   readAvx (Inr [\<lparr>Name = ''Container/Documents/game/a'', IsDir = False,
                   Open = Inr \<lparr>content = replicate 10 0, fault = None, slack = []\<rparr>\<rparr>]) False =
     Panic \<and>
   readAvx (Inr [\<lparr>Name = ''Container/Documents/game/a'', IsDir = False,
                   Open = Inr \<lparr>content = replicate 10 0, fault = None,
                               slack = replicate 502 0\<rparr>\<rparr>]) False =
     Returned (''Container/Documents/game/a'',
               \<lparr>elems = replicate 10 0, spare = replicate 502 0\<rparr>)"
proof (intro conjI)
  show "getSavedDate \<lparr>elems = replicate 10 0, spare = []\<rparr> = Panic"
    by (simp add: getSavedDate_eq cap_def)
  show g: "getSavedDate \<lparr>elems = replicate 10 0, spare = replicate 502 0\<rparr> = Returned 0"
    by (simp add: getSavedDate_eq cap_def backing_def nth_append leUint32_def)
  show "readAvx (Inr [\<lparr>Name = ''Container/Documents/game/a'', IsDir = False,
                   Open = Inr \<lparr>content = replicate 10 0, fault = None, slack = []\<rparr>\<rparr>]) False =
     Panic"
    by (simp add: readAvx_def scanLoop.simps gamePrefix_def HasPrefix_def readBody_def
        ReadAll_def getSavedDate_eq cap_def)
  show "readAvx (Inr [\<lparr>Name = ''Container/Documents/game/a'', IsDir = False,
                   Open = Inr \<lparr>content = replicate 10 0, fault = None,
                               slack = replicate 502 0\<rparr>\<rparr>]) False =
     Returned (''Container/Documents/game/a'',
               \<lparr>elems = replicate 10 0, spare = replicate 502 0\<rparr>)"
    by (simp add: readAvx_def scanLoop.simps gamePrefix_def HasPrefix_def readBody_def
        ReadAll_def g)
qed

text \<open>
  Claim C4, as amended. The claim is that \<open>readAvx\<close> returns the selected entry with the
  greatest date, the first of them, whenever one entry is selected. \<open>latestDate\<close> starts
  at -1 and an entry is taken only on a greater date, so an archive whose selected entries
  all have negative dates gives no entry. What holds: when every selected entry reads
  without error into a buffer of capacity 64 or more, and one of them has a date that is
  not negative, \<open>readAvx\<close> returns the name and the body of a selected entry whose date,
  the little-endian \<open>int32\<close> at offsets 60 to 63, is above the dates of the selected
  entries before it and not below those of the selected entries after it.
\<close>

theorem readAvx_latest:
  assumes "\<forall>f \<in> set files. selected (gamePrefix online) f \<longrightarrow> (\<exists>body d. readsAs f body d)"
    and "\<exists>f \<in> set files. \<exists>body d. selected (gamePrefix online) f \<and> readsAs f body d \<and> 0 \<le> sint d"
  shows "\<exists>pre e post body d.
           filter (selected (gamePrefix online)) files = pre @ e # post \<and>
           readsAs e body d \<and>
           d = leUint32 (backing body ! 60) (backing body ! 61) (backing body ! 62)
                 (backing body ! 63) \<and>
           readAvx (Inr files) online = Returned (Name e, body) \<and>
           0 \<le> sint d \<and>
           (\<forall>f \<in> set pre. \<exists>b' d'. readsAs f b' d' \<and> sint d' < sint d) \<and>
           (\<forall>f \<in> set post. \<exists>b' d'. readsAs f b' d' \<and> sint d' \<le> sint d)"
proof -
  let ?p = "gamePrefix online"
  obtain st where "scanLoop ?p files ([], nil, - 1) = Returned st"
    using assms(1) scanLoop_returns [of ?p files "([], nil, - 1)"] by blast
  then obtain l lb ld where r: "scanLoop ?p files ([], nil, - 1) = Returned (l, lb, ld)"
    by (metis prod_cases3)
  from assms(2) obtain g gb gd where g: "g \<in> set files" "selected ?p g" "readsAs g gb gd"
    "0 \<le> sint gd" by blast
  from scanLoop_result [OF r] show ?thesis
  proof
    assume "(l, lb, ld) = ([], nil, - 1) \<and>
      (\<forall>f \<in> set files. selected ?p f \<longrightarrow> (\<exists>b d. readsAs f b d \<and> sint d \<le> sint (- 1 :: int32)))"
    then obtain b d where "readsAs g b d" "sint d \<le> sint (- 1 :: int32)" using g(1,2) by blast
    then have "sint gd \<le> sint (- 1 :: int32)" using readsAs_fun [OF g(3)] by blast
    then have "sint gd \<le> - 1" by (simp only: sint_minus_one)
    with g(4) show ?thesis by simp
  next
    assume "\<exists>pre e post. filter (selected ?p) files = pre @ e # post \<and>
            l = Name e \<and> readsAs e lb ld \<and> sint (- 1 :: int32) < sint ld \<and>
            (\<forall>f \<in> set pre. \<exists>b d. readsAs f b d \<and> sint d < sint ld) \<and>
            (\<forall>f \<in> set post. \<exists>b d. readsAs f b d \<and> sint d \<le> sint ld)"
    then obtain pre e post where b: "filter (selected ?p) files = pre @ e # post"
        "l = Name e" "readsAs e lb ld" "sint (- 1 :: int32) < sint ld"
        "\<forall>f \<in> set pre. \<exists>b d. readsAs f b d \<and> sint d < sint ld"
        "\<forall>f \<in> set post. \<exists>b d. readsAs f b d \<and> sint d \<le> sint ld"
      by blast
    have "- 1 < sint ld" using b(4) by (simp only: sint_minus_one)
    then have nn: "0 \<le> sint ld" by simp
    have "getSavedDate lb = Returned ld" using b(3) by (simp add: readsAs_def)
    then have le: "ld = leUint32 (backing lb ! 60) (backing lb ! 61) (backing lb ! 62)
                 (backing lb ! 63)"
      by (simp add: getSavedDate_eq split: if_splits)
    have "readAvx (Inr files) online = Returned (Name e, lb)"
      using r b(2) by (simp add: readAvx_scan)
    with b(1,3,5,6) nn le show ?thesis by blast
  qed
qed

theorem readAvx_latest_witness:
  "(\<exists>pre e post body d.
      filter (selected (gamePrefix False))
        [\<lparr>Name = ''Container/Documents/game/a'', IsDir = False,
          Open = Inr \<lparr>content = replicate 60 0 @ [5, 0, 0, 0], fault = None, slack = []\<rparr>\<rparr>,
         \<lparr>Name = ''Container/Documents/game/b'', IsDir = False,
          Open = Inr \<lparr>content = replicate 60 1 @ [9, 0, 0, 0], fault = None, slack = []\<rparr>\<rparr>,
         \<lparr>Name = ''Container/Documents/game/c'', IsDir = False,
          Open = Inr \<lparr>content = replicate 60 2 @ [9, 0, 0, 0], fault = None, slack = []\<rparr>\<rparr>] =
        pre @ e # post \<and>
      readsAs e body d \<and>
      d = leUint32 (backing body ! 60) (backing body ! 61) (backing body ! 62)
            (backing body ! 63) \<and>
      readAvx
        (Inr [\<lparr>Name = ''Container/Documents/game/a'', IsDir = False,
          Open = Inr \<lparr>content = replicate 60 0 @ [5, 0, 0, 0], fault = None, slack = []\<rparr>\<rparr>,
         \<lparr>Name = ''Container/Documents/game/b'', IsDir = False,
          Open = Inr \<lparr>content = replicate 60 1 @ [9, 0, 0, 0], fault = None, slack = []\<rparr>\<rparr>,
         \<lparr>Name = ''Container/Documents/game/c'', IsDir = False,
          Open = Inr \<lparr>content = replicate 60 2 @ [9, 0, 0, 0], fault = None, slack = []\<rparr>\<rparr>])
        False = Returned (Name e, body) \<and>
      0 \<le> sint d \<and>
      (\<forall>f \<in> set pre. \<exists>b' d'. readsAs f b' d' \<and> sint d' < sint d) \<and>
      (\<forall>f \<in> set post. \<exists>b' d'. readsAs f b' d' \<and> sint d' \<le> sint d)) \<and>
   readAvx
     (Inr [\<lparr>Name = ''Container/Documents/game/a'', IsDir = False,
          Open = Inr \<lparr>content = replicate 60 0 @ [5, 0, 0, 0], fault = None, slack = []\<rparr>\<rparr>,
         \<lparr>Name = ''Container/Documents/game/b'', IsDir = False,
          Open = Inr \<lparr>content = replicate 60 1 @ [9, 0, 0, 0], fault = None, slack = []\<rparr>\<rparr>,
         \<lparr>Name = ''Container/Documents/game/c'', IsDir = False,
          Open = Inr \<lparr>content = replicate 60 2 @ [9, 0, 0, 0], fault = None, slack = []\<rparr>\<rparr>])
     False =
     Returned (''Container/Documents/game/b'',
               \<lparr>elems = replicate 60 1 @ [9, 0, 0, 0], spare = []\<rparr>)"
proof (rule conjI)
  let ?A = "\<lparr>Name = ''Container/Documents/game/a'', IsDir = False,
          Open = Inr \<lparr>content = replicate 60 0 @ [5, 0, 0, 0 :: byte], fault = None, slack = []\<rparr>\<rparr>"
  let ?B = "\<lparr>Name = ''Container/Documents/game/b'', IsDir = False,
          Open = Inr \<lparr>content = replicate 60 1 @ [9, 0, 0, 0 :: byte], fault = None, slack = []\<rparr>\<rparr>"
  let ?C = "\<lparr>Name = ''Container/Documents/game/c'', IsDir = False,
          Open = Inr \<lparr>content = replicate 60 2 @ [9, 0, 0, 0 :: byte], fault = None, slack = []\<rparr>\<rparr>"
  have rA: "readsAs ?A \<lparr>elems = replicate 60 0 @ [5, 0, 0, 0], spare = []\<rparr> 5"
    by (simp add: readsAs_def readBody_def ReadAll_def getSavedDate_eq cap_def backing_def
        nth_append leUint32_def)
  have rB: "readsAs ?B \<lparr>elems = replicate 60 1 @ [9, 0, 0, 0], spare = []\<rparr> 9"
    by (simp add: readsAs_def readBody_def ReadAll_def getSavedDate_eq cap_def backing_def
        nth_append leUint32_def)
  have rC: "readsAs ?C \<lparr>elems = replicate 60 2 @ [9, 0, 0, 0], spare = []\<rparr> 9"
    by (simp add: readsAs_def readBody_def ReadAll_def getSavedDate_eq cap_def backing_def
        nth_append leUint32_def)
  have h1: "\<forall>f \<in> set [?A, ?B, ?C]. selected (gamePrefix False) f \<longrightarrow> (\<exists>body d. readsAs f body d)"
    using rA rB rC by auto
  have sA: "selected (gamePrefix False) ?A"
    by (simp add: selected_def gamePrefix_def HasPrefix_def)
  have "0 \<le> sint (5 :: int32)" by simp
  with rA sA have "\<exists>body d. selected (gamePrefix False) ?A \<and> readsAs ?A body d \<and> 0 \<le> sint d"
    by blast
  then have h2: "\<exists>f \<in> set [?A, ?B, ?C]. \<exists>body d.
      selected (gamePrefix False) f \<and> readsAs f body d \<and> 0 \<le> sint d"
    by (rule bexI [of _ ?A]) simp
  show "\<exists>pre e post body d.
      filter (selected (gamePrefix False)) [?A, ?B, ?C] = pre @ e # post \<and>
      readsAs e body d \<and>
      d = leUint32 (backing body ! 60) (backing body ! 61) (backing body ! 62)
            (backing body ! 63) \<and>
      readAvx (Inr [?A, ?B, ?C]) False = Returned (Name e, body) \<and>
      0 \<le> sint d \<and>
      (\<forall>f \<in> set pre. \<exists>b' d'. readsAs f b' d' \<and> sint d' < sint d) \<and>
      (\<forall>f \<in> set post. \<exists>b' d'. readsAs f b' d' \<and> sint d' \<le> sint d)"
    by (rule readAvx_latest [OF h1 h2])
  have sB: "selected (gamePrefix False) ?B" and sC: "selected (gamePrefix False) ?C"
    by (simp_all add: selected_def gamePrefix_def HasPrefix_def)
  show "readAvx (Inr [?A, ?B, ?C]) False =
     Returned (''Container/Documents/game/b'',
               \<lparr>elems = replicate 60 1 @ [9, 0, 0, 0], spare = []\<rparr>)"
    by (simp add: readAvx_scan scanLoop_take [OF sA rA] scanLoop_take [OF sB rB]
        scanLoop_take [OF sC rC])
qed

theorem readAvx_latest_counterexample:
  "readAvx
     (Inr [\<lparr>Name = ''Container/Documents/game/a'', IsDir = False,
            Open = Inr \<lparr>content = replicate 60 0 @ [0xFE, 0xFF, 0xFF, 0xFF], fault = None,
                        slack = []\<rparr>\<rparr>])
     False = Returned ([], nil)"
proof -
  let ?A = "\<lparr>Name = ''Container/Documents/game/a'', IsDir = False,
            Open = Inr \<lparr>content = replicate 60 0 @ [0xFE, 0xFF, 0xFF, 0xFF :: byte], fault = None,
                        slack = []\<rparr>\<rparr>"
  have rA: "readsAs ?A \<lparr>elems = replicate 60 0 @ [0xFE, 0xFF, 0xFF, 0xFF], spare = []\<rparr> (- 2)"
    by (simp add: readsAs_def readBody_def ReadAll_def getSavedDate_eq cap_def backing_def
        nth_append leUint32_def)
  have sA: "selected (gamePrefix False) ?A"
    by (simp add: selected_def gamePrefix_def HasPrefix_def)
  show ?thesis
    by (simp add: readAvx_scan scanLoop_take [OF sA rA])
qed

text \<open>
  Claim C10. \<open>latestDate\<close> starts at -1 and is replaced only by a greater date. So
  when \<open>readAvx\<close> returns, either it returns the empty name and the nil slice, or the
  name and the body of a selected entry whose date is not negative. An archive whose
  selected entries all have negative dates gives the empty name and the nil slice, which
  is what an archive with no selected entry gives.
\<close>

theorem readAvx_winner_not_negative:
  "(readAvx (Inr files) online = Returned (name, body) \<longrightarrow>
      (name = [] \<and> body = nil) \<or>
      (\<exists>e \<in> set files. \<exists>d. selected (gamePrefix online) e \<and> name = Name e \<and>
          readsAs e body d \<and> 0 \<le> sint d)) \<and>
   ((\<forall>f \<in> set files. selected (gamePrefix online) f \<longrightarrow> (\<exists>b d. readsAs f b d \<and> sint d < 0)) \<longrightarrow>
    (\<forall>f \<in> set files'. \<not> selected (gamePrefix online) f) \<longrightarrow>
      readAvx (Inr files) online = Returned ([], nil) \<and>
      readAvx (Inr files) online = readAvx (Inr files') online)"
proof (intro conjI impI)
  let ?p = "gamePrefix online"
  assume r: "readAvx (Inr files) online = Returned (name, body)"
  then obtain ld where s: "scanLoop ?p files ([], nil, - 1) = Returned (name, body, ld)"
    by (auto simp: readAvx_scan split: outcome.splits)
  from scanLoop_result [OF s]
  show "(name = [] \<and> body = nil) \<or>
      (\<exists>e \<in> set files. \<exists>d. selected ?p e \<and> name = Name e \<and> readsAs e body d \<and> 0 \<le> sint d)"
  proof
    assume "(name, body, ld) = ([], nil, - 1) \<and>
      (\<forall>f \<in> set files. selected ?p f \<longrightarrow> (\<exists>b d. readsAs f b d \<and> sint d \<le> sint (- 1 :: int32)))"
    then show ?thesis by simp
  next
    assume "\<exists>pre e post. filter (selected ?p) files = pre @ e # post \<and>
            name = Name e \<and> readsAs e body ld \<and> sint (- 1 :: int32) < sint ld \<and>
            (\<forall>f \<in> set pre. \<exists>b d. readsAs f b d \<and> sint d < sint ld) \<and>
            (\<forall>f \<in> set post. \<exists>b d. readsAs f b d \<and> sint d \<le> sint ld)"
    then obtain pre e post where b: "filter (selected ?p) files = pre @ e # post"
        "name = Name e" "readsAs e body ld" "sint (- 1 :: int32) < sint ld"
      by blast
    have "e \<in> set (filter (selected ?p) files)" using b(1) by simp
    then have m: "e \<in> set files" "selected ?p e" by simp_all
    have "- 1 < sint ld" using b(4) by (simp only: sint_minus_one)
    then have "0 \<le> sint ld" by simp
    with m b(2,3) show ?thesis by blast
  qed
next
  let ?p = "gamePrefix online"
  assume n: "\<forall>f \<in> set files. selected ?p f \<longrightarrow> (\<exists>b d. readsAs f b d \<and> sint d < 0)"
  have "\<forall>f \<in> set files. selected ?p f \<longrightarrow> (\<exists>b d. readsAs f b d \<and> sint d \<le> sint (- 1 :: int32))"
  proof (intro ballI impI)
    fix f
    assume "f \<in> set files" "selected ?p f"
    then obtain b d where "readsAs f b d" "sint d < 0" using n by blast
    then show "\<exists>b d. readsAs f b d \<and> sint d \<le> sint (- 1 :: int32)"
      by (intro exI [of _ b] exI [of _ d]) (simp only: sint_minus_one, simp)
  qed
  from scanLoop_all_below [OF this, of "[]" nil]
  show e: "readAvx (Inr files) online = Returned ([], nil)"
    by (simp add: readAvx_scan)
  assume "\<forall>f \<in> set files'. \<not> selected ?p f"
  from scanLoop_none [OF this, of "([], nil, - 1)"]
  have "readAvx (Inr files') online = Returned ([], nil)"
    by (simp add: readAvx_scan)
  with e show "readAvx (Inr files) online = readAvx (Inr files') online"
    by simp
qed

theorem readAvx_winner_not_negative_witness:
  "readAvx
     (Inr [\<lparr>Name = ''Container/Documents/game-online/x.dat'', IsDir = False,
            Open = Inr \<lparr>content = replicate 60 7 @ [0, 0, 0, 0x80], fault = None,
                        slack = []\<rparr>\<rparr>])
     True = Returned ([], nil) \<and>
   readAvx
     (Inr [\<lparr>Name = ''Container/Documents/game-online/x.dat'', IsDir = False,
            Open = Inr \<lparr>content = replicate 60 7 @ [0, 0, 0, 0x80], fault = None,
                        slack = []\<rparr>\<rparr>])
     True =
   readAvx
     (Inr [\<lparr>Name = ''Container/Documents/game/y.dat'', IsDir = False,
            Open = Inr \<lparr>content = replicate 64 7, fault = None, slack = []\<rparr>\<rparr>])
     True"
proof -
  let ?X = "\<lparr>Name = ''Container/Documents/game-online/x.dat'', IsDir = False,
            Open = Inr \<lparr>content = replicate 60 7 @ [0, 0, 0, 0x80 :: byte], fault = None,
                        slack = []\<rparr>\<rparr>"
  let ?Y = "\<lparr>Name = ''Container/Documents/game/y.dat'', IsDir = False,
            Open = Inr \<lparr>content = replicate 64 (7 :: byte), fault = None, slack = []\<rparr>\<rparr>"
  have rX: "readsAs ?X \<lparr>elems = replicate 60 7 @ [0, 0, 0, 0x80], spare = []\<rparr> 0x80000000"
    by (simp add: readsAs_def readBody_def ReadAll_def getSavedDate_eq cap_def backing_def
        nth_append leUint32_def)
  have "sint (0x80000000 :: int32) < 0" by simp
  with rX have "\<exists>b d. readsAs ?X b d \<and> sint d < 0"
    by blast
  then have h1: "\<forall>f \<in> set [?X]. selected (gamePrefix True) f \<longrightarrow>
      (\<exists>b d. readsAs f b d \<and> sint d < 0)"
    by simp
  have h2: "\<forall>f \<in> set [?Y]. \<not> selected (gamePrefix True) f"
    by (simp add: selected_def gamePrefix_def HasPrefix_def)
  from readAvx_winner_not_negative [of "[?X]" True _ _ "[?Y]"] h1 h2
  show ?thesis by blast
qed

section \<open>Properties of the rewrite\<close>

lemma sinkTakes_add:
  "sinkTakes zw (m + n) \<longleftrightarrow> sinkTakes zw m \<and> sinkTakes (zw\<lparr>ops := ops zw + m\<rparr>) n"
  by (auto simp: sinkTakes_def split: option.splits)

lemma sinkTakes_dir [simp]: "sinkTakes (zw\<lparr>dir := d\<rparr>) n = sinkTakes zw n"
  by (simp add: sinkTakes_def split: option.splits)

lemma sinkTakes_zero [simp]: "sinkTakes zw 0"
  by (auto simp: sinkTakes_def split: option.splits)

lemma compressor_keep [simp]:
  "compressor (zw\<lparr>dir := d\<rparr>) m = compressor zw m"
  "compressor (zw\<lparr>ops := k\<rparr>) m = compressor zw m"
  by (simp_all add: compressor_def)

lemma appendLast_snoc: "appendLast (d @ [e]) p = d @ [e\<lparr>opayload := opayload e @ p\<rparr>]"
  by (simp add: appendLast_def)

lemma writeEntry_iff:
  assumes "compressor zw Deflate = Some c"
  shows "writeEntry lb fo f zw = Inr zw' \<longleftrightarrow>
     copies lb fo f \<and> sinkTakes zw (sinkOps lb fo f) \<and>
     zw' = zw\<lparr>ops := ops zw + sinkOps lb fo f, dir := dir zw @ [emitted c lb fo f]\<rparr>"
  using assms
  by (auto simp: writeEntry_def Create_def Write_def Copy_def sinkOp_def sinkTakes_def
      copies_def sinkOps_def written_def emitted_def appendLast_snoc
      split: sum.splits option.splits if_splits prod.splits EntryWriter.splits)

lemma writeLoop_iff:
  assumes "compressor zw Deflate = Some c"
  shows "writeLoop lb fo fs zw = Inr zw' \<longleftrightarrow>
     (\<forall>f \<in> set fs. copies lb fo f) \<and>
     sinkTakes zw (sum_list (map (sinkOps lb fo) fs)) \<and>
     zw' = zw\<lparr>ops := ops zw + sum_list (map (sinkOps lb fo) fs),
              dir := dir zw @ map (emitted c lb fo) fs\<rparr>"
  using assms
proof (induction fs arbitrary: zw)
  case Nil
  show ?case by auto
next
  case (Cons f fs zw)
  let ?n = "sinkOps lb fo f"
  let ?m = "sum_list (map (sinkOps lb fo) fs)"
  let ?z1 = "zw\<lparr>ops := ops zw + ?n, dir := dir zw @ [emitted c lb fo f]\<rparr>"
  have c1: "compressor ?z1 Deflate = Some c" using Cons.prems by simp
  have st: "sinkTakes zw (sum_list (map (sinkOps lb fo) (f # fs))) \<longleftrightarrow>
        sinkTakes zw ?n \<and> sinkTakes ?z1 ?m"
    using sinkTakes_add [of zw ?n ?m] by simp
  show ?case
  proof (cases "copies lb fo f \<and> sinkTakes zw ?n")
    case False
    then have "writeEntry lb fo f zw \<noteq> Inr z" for z
      by (auto simp: writeEntry_iff [OF Cons.prems])
    then have "writeLoop lb fo (f # fs) zw \<noteq> Inr zw'"
      by (auto split: sum.splits)
    with False st show ?thesis by auto
  next
    case True
    then have "writeEntry lb fo f zw = Inr ?z1"
      by (simp add: writeEntry_iff [OF Cons.prems])
    then have e: "writeLoop lb fo (f # fs) zw = writeLoop lb fo fs ?z1" by simp
    have ih: "writeLoop lb fo fs ?z1 = Inr zw' \<longleftrightarrow>
       (\<forall>f \<in> set fs. copies lb fo f) \<and> sinkTakes ?z1 ?m \<and>
       zw' = ?z1\<lparr>ops := ops ?z1 + ?m, dir := dir ?z1 @ map (emitted c lb fo) fs\<rparr>"
      by (rule Cons.IH [OF c1])
    have r: "?z1\<lparr>ops := ops ?z1 + ?m, dir := dir ?z1 @ map (emitted c lb fo) fs\<rparr> =
             zw\<lparr>ops := ops zw + sum_list (map (sinkOps lb fo) (f # fs)),
                 dir := dir zw @ map (emitted c lb fo) (f # fs)\<rparr>"
      by simp
    show ?thesis
      unfolding e ih r st using True by auto
  qed
qed

lemma writeAvx_iff:
  "writeAvx w (Inr files) lb fo = Returned out \<longleftrightarrow>
     (\<forall>f \<in> set files. copies lb fo f) \<and>
     sinkTakes (NewWriter w) (sum_list (map (sinkOps lb fo) files) + 1) \<and>
     out = map (emitted (FlateWriter NoCompression) lb fo) files"
proof -
  let ?zw = "RegisterCompressor (NewWriter w) Deflate (FlateWriter NoCompression)"
  let ?out = "map (emitted (FlateWriter NoCompression) lb fo) files"
  let ?m = "sum_list (map (sinkOps lb fo) files)"
  let ?z1 = "?zw\<lparr>ops := ops ?zw + ?m, dir := dir ?zw @ ?out\<rparr>"
  have c: "compressor ?zw Deflate = Some (FlateWriter NoCompression)"
    by (simp add: compressor_def RegisterCompressor_def)
  have t: "sinkTakes ?zw n = sinkTakes (NewWriter w) n" for n
    by (simp add: sinkTakes_def RegisterCompressor_def split: option.splits)
  have a: "sinkTakes (NewWriter w) (?m + 1) \<longleftrightarrow> sinkTakes ?zw ?m \<and> sinkTakes ?z1 1"
    using sinkTakes_add [of ?zw ?m 1] by (simp add: t)
  have d: "dir ?zw = []" by (simp add: RegisterCompressor_def NewWriter_def)
  have cl: "Close z = Inr o' \<longleftrightarrow> sinkTakes z 1 \<and> o' = dir z" for z o'
    by (auto simp: Close_def sinkOp_def sinkTakes_def split: option.splits sum.splits)
  show ?thesis
  proof (cases "writeLoop lb fo files ?zw")
    case (Inl err)
    then have "\<not> ((\<forall>f \<in> set files. copies lb fo f) \<and> sinkTakes ?zw ?m)"
      using writeLoop_iff [OF c, of lb fo files ?z1] by auto
    then show ?thesis using Inl a by (auto simp: writeAvx_def)
  next
    case (Inr z)
    then have z: "(\<forall>f \<in> set files. copies lb fo f)" "sinkTakes ?zw ?m" "z = ?z1"
      using writeLoop_iff [OF c, of lb fo files z] by auto
    have "Close z = Inr out \<longleftrightarrow> sinkTakes ?z1 1 \<and> out = ?out"
      unfolding z(3) by (auto simp: cl d)
    then show ?thesis using Inr z(1,2) a
      by (auto simp: writeAvx_def split: sum.splits)
  qed
qed

lemma writeAvx_opened:
  "writeAvx w opened lb fo = Returned out \<Longrightarrow> \<exists>files. opened = Inr files"
  by (cases opened) (simp_all add: writeAvx_def)




text \<open>
  Claim C8, as amended. The claim is that every entry \<open>writeAvx\<close> writes is tagged
  \<open>Deflate\<close> and encoded with no compression. \<open>Create\<close> gives an entry whose name
  ends in a slash the tag \<open>Store\<close> and no compressor. What holds: \<open>writeAvx\<close>
  registers \<open>flate.NewWriter(out, flate.NoCompression)\<close> for the tag \<open>Deflate\<close>
  before it creates any entry, and of the entries of the archive written, as many as the
  archive read has, each one whose name does not end in a slash carries the tag
  \<open>Deflate\<close> and is encoded by the flate writer of level \<open>NoCompression\<close>, the
  replaced entry and the copied ones alike, and each one whose name ends in a slash
  carries the tag \<open>Store\<close> and has no compressor and no payload.
\<close>

theorem writeAvx_tags:
  "compressor (RegisterCompressor (NewWriter w) Deflate (FlateWriter NoCompression)) Deflate =
     Some (FlateWriter NoCompression) \<and>
   (writeAvx w opened lb fo = Returned out \<longrightarrow>
      (\<exists>files. opened = Inr files \<and> map oname out = map Name files) \<and>
      (\<forall>e \<in> set out.
         if HasSuffix (oname e) ''/''
         then omethod e = Store \<and> oencoder e = None \<and> opayload e = []
         else omethod e = Deflate \<and> oencoder e = Some (FlateWriter NoCompression)))"
proof (intro conjI impI)
  show "compressor (RegisterCompressor (NewWriter w) Deflate (FlateWriter NoCompression)) Deflate =
     Some (FlateWriter NoCompression)"
    by (simp add: compressor_def RegisterCompressor_def)
next
  assume r: "writeAvx w opened lb fo = Returned out"
  then obtain files where f: "opened = Inr files" using writeAvx_opened by blast
  from r have o: "out = map (emitted (FlateWriter NoCompression) lb fo) files"
    and c: "\<forall>f \<in> set files. copies lb fo f"
    unfolding f writeAvx_iff by blast+
  show "\<exists>files. opened = Inr files \<and> map oname out = map Name files"
    using f o by (simp add: emitted_def comp_def)
  show "\<forall>e \<in> set out.
         if HasSuffix (oname e) ''/''
         then omethod e = Store \<and> oencoder e = None \<and> opayload e = []
         else omethod e = Deflate \<and> oencoder e = Some (FlateWriter NoCompression)"
  proof
    fix e
    assume "e \<in> set out"
    then obtain g where g: "g \<in> set files" "e = emitted (FlateWriter NoCompression) lb fo g"
      unfolding o by auto
    have "copies lb fo g" using c g(1) by simp
    then have "HasSuffix (Name g) ''/'' \<Longrightarrow> written lb fo g = []"
      by (auto simp: copies_def split: sum.splits)
    then show "if HasSuffix (oname e) ''/''
         then omethod e = Store \<and> oencoder e = None \<and> opayload e = []
         else omethod e = Deflate \<and> oencoder e = Some (FlateWriter NoCompression)"
      by (simp add: g(2) emitted_def)
  qed
qed

theorem writeAvx_tags_witness:
  "writeAvx None
     (Inr [\<lparr>Name = ''Container/Documents/'', IsDir = True,
            Open = Inr \<lparr>content = [], fault = None, slack = []\<rparr>\<rparr>,
           \<lparr>Name = ''Container/Documents/game-online/x.dat'', IsDir = False,
            Open = Inr \<lparr>content = [1, 2, 3], fault = None, slack = []\<rparr>\<rparr>,
           \<lparr>Name = ''Container/Documents/game/y.dat'', IsDir = False,
            Open = Inr \<lparr>content = [4, 5], fault = None, slack = []\<rparr>\<rparr>])
     \<lparr>elems = [7], spare = []\<rparr> ''Container/Documents/game-online/x.dat'' =
   Returned
     [\<lparr>oname = ''Container/Documents/'', omethod = 0, oencoder = None, opayload = []\<rparr>,
      \<lparr>oname = ''Container/Documents/game-online/x.dat'', omethod = 8,
       oencoder = Some (FlateWriter 0), opayload = [7]\<rparr>,
      \<lparr>oname = ''Container/Documents/game/y.dat'', omethod = 8,
       oencoder = Some (FlateWriter 0), opayload = [4, 5]\<rparr>] \<and>
   list_all
     (\<lambda>e. if HasSuffix (oname e) ''/''
          then omethod e = Store \<and> oencoder e = None \<and> opayload e = []
          else omethod e = Deflate \<and> oencoder e = Some (FlateWriter NoCompression))
     [\<lparr>oname = ''Container/Documents/'', omethod = 0, oencoder = None, opayload = []\<rparr>,
      \<lparr>oname = ''Container/Documents/game-online/x.dat'', omethod = 8,
       oencoder = Some (FlateWriter 0), opayload = [7 :: byte]\<rparr>,
      \<lparr>oname = ''Container/Documents/game/y.dat'', omethod = 8,
       oencoder = Some (FlateWriter 0), opayload = [4, 5]\<rparr>]"
proof -
  let ?files = "[\<lparr>Name = ''Container/Documents/'', IsDir = True,
            Open = Inr \<lparr>content = [], fault = None, slack = []\<rparr>\<rparr>,
           \<lparr>Name = ''Container/Documents/game-online/x.dat'', IsDir = False,
            Open = Inr \<lparr>content = [1, 2, 3 :: byte], fault = None, slack = []\<rparr>\<rparr>,
           \<lparr>Name = ''Container/Documents/game/y.dat'', IsDir = False,
            Open = Inr \<lparr>content = [4, 5], fault = None, slack = []\<rparr>\<rparr>]"
  let ?out = "[\<lparr>oname = ''Container/Documents/'', omethod = 0, oencoder = None, opayload = []\<rparr>,
      \<lparr>oname = ''Container/Documents/game-online/x.dat'', omethod = 8,
       oencoder = Some (FlateWriter 0), opayload = [7 :: byte]\<rparr>,
      \<lparr>oname = ''Container/Documents/game/y.dat'', omethod = 8,
       oencoder = Some (FlateWriter 0), opayload = [4, 5]\<rparr>]"
  have h: "writeAvx None (Inr ?files) \<lparr>elems = [7], spare = []\<rparr>
             ''Container/Documents/game-online/x.dat'' = Returned ?out"
    by (simp add: writeAvx_iff copies_def sinkTakes_def NewWriter_def written_def emitted_def
        HasSuffix_def Deflate_def Store_def NoCompression_def)
  from writeAvx_tags
    [of None "Inr ?files" "\<lparr>elems = [7], spare = []\<rparr>"
        "''Container/Documents/game-online/x.dat''" ?out] h
  have "\<forall>e \<in> set ?out.
         if HasSuffix (oname e) ''/''
         then omethod e = Store \<and> oencoder e = None \<and> opayload e = []
         else omethod e = Deflate \<and> oencoder e = Some (FlateWriter NoCompression)"
    by blast
  then have "list_all
     (\<lambda>e. if HasSuffix (oname e) ''/''
          then omethod e = Store \<and> oencoder e = None \<and> opayload e = []
          else omethod e = Deflate \<and> oencoder e = Some (FlateWriter NoCompression)) ?out"
    by (simp only: list_all_iff)
  with h show ?thesis by blast
qed

theorem writeAvx_tags_counterexample:
  "writeAvx None
     (Inr [\<lparr>Name = ''Container/Documents/'', IsDir = True,
            Open = Inr \<lparr>content = [], fault = None, slack = []\<rparr>\<rparr>])
     \<lparr>elems = [7], spare = []\<rparr> ''Container/Documents/game-online/x.dat'' =
   Returned [\<lparr>oname = ''Container/Documents/'', omethod = 0, oencoder = None, opayload = []\<rparr>]"
  by (simp add: writeAvx_iff copies_def sinkTakes_def NewWriter_def written_def emitted_def
      HasSuffix_def Store_def)

end
